theory Spec2Isabelle
  imports Main
begin

section \<open>Text\<close>

text \<open>
  The program is \<^verbatim>\<open>generate_zod_schema.py\<close>: class \<^verbatim>\<open>TypeScriptToZodConverter\<close>.
  Python strings are modelled as lists of characters. A \<^typ>\<open>char\<close> stands for the code
  point of the same number, so the model covers the texts whose code points are below 256;
  the character classes below are Python's classes on exactly these code points.
\<close>

abbreviation SQ :: char where "SQ \<equiv> CHR 0x27"
abbreviation DQ :: char where "DQ \<equiv> CHR 0x22"
abbreviation NL :: char where "NL \<equiv> CHR 0x0A"

text \<open>\<^verbatim>\<open>\s\<close> of \<^verbatim>\<open>re\<close> and the characters removed by \<^verbatim>\<open>str.strip()\<close>.\<close>

definition is_space :: "char \<Rightarrow> bool" where
  "is_space c = (let n = (of_char c :: nat) in
     (9 \<le> n \<and> n \<le> 13) \<or> (28 \<le> n \<and> n \<le> 32) \<or> n = 133 \<or> n = 160)"

text \<open>\<^verbatim>\<open>\w\<close> of \<^verbatim>\<open>re\<close> on \<^verbatim>\<open>str\<close> patterns: alphanumeric or underscore.\<close>

definition is_word :: "char \<Rightarrow> bool" where
  "is_word c = (let n = (of_char c :: nat) in
     (48 \<le> n \<and> n \<le> 57) \<or> (65 \<le> n \<and> n \<le> 90) \<or> n = 95 \<or> (97 \<le> n \<and> n \<le> 122) \<or>
     n = 170 \<or> n = 178 \<or> n = 179 \<or> n = 181 \<or> n = 185 \<or> n = 186 \<or>
     (188 \<le> n \<and> n \<le> 190) \<or> (192 \<le> n \<and> n \<le> 214) \<or> (216 \<le> n \<and> n \<le> 246) \<or>
     248 \<le> n)"

text \<open>\<^verbatim>\<open>.\<close> without and with \<^verbatim>\<open>re.DOTALL\<close>.\<close>

definition not_newline :: "char \<Rightarrow> bool" where
  "not_newline c = (c \<noteq> NL)"

definition any_char :: "char \<Rightarrow> bool" where
  "any_char c = True"

definition not_char :: "char \<Rightarrow> char \<Rightarrow> bool" where
  "not_char d c = (c \<noteq> d)"

definition is_quote :: "char \<Rightarrow> bool" where
  "is_quote c = (c = DQ \<or> c = SQ)"

definition lstrip :: "string \<Rightarrow> string" where
  "lstrip s = dropWhile is_space s"

definition rstrip :: "string \<Rightarrow> string" where
  "rstrip s = rev (dropWhile is_space (rev s))"

definition strip :: "string \<Rightarrow> string" where
  "strip s = rstrip (lstrip s)"

text \<open>\<^verbatim>\<open>s.rstrip(';')\<close>\<close>

definition rstrip_char :: "char \<Rightarrow> string \<Rightarrow> string" where
  "rstrip_char d s = rev (dropWhile (\<lambda>c. c = d) (rev s))"

definition startswith :: "string \<Rightarrow> string \<Rightarrow> bool" where
  "startswith s w = (take (length w) s = w)"

definition endswith :: "string \<Rightarrow> string \<Rightarrow> bool" where
  "endswith s w = (length w \<le> length s \<and> drop (length s - length w) s = w)"

text \<open>\<^verbatim>\<open>w in s\<close> on strings: \<open>w\<close> occurs in \<open>s\<close>.\<close>

fun py_in :: "string \<Rightarrow> string \<Rightarrow> bool" where
  "py_in w [] = (w = [])"
| "py_in w (x # xs) = (take (length w) (x # xs) = w \<or> py_in w xs)"

text \<open>
  \<^verbatim>\<open>s.split(c)\<close> for a separator of one character. The result of the recursive call is
  never empty; its first part is the one that the character \<open>x\<close> belongs to.
\<close>

fun split_on :: "char \<Rightarrow> string \<Rightarrow> string list" where
  "split_on c [] = [[]]"
| "split_on c (x # xs) =
     (if x = c then [] # split_on c xs
      else case split_on c xs of w # ws \<Rightarrow> (x # w) # ws | [] \<Rightarrow> [[x]])"

text \<open>\<^verbatim>\<open>sep.join(ws)\<close>\<close>

fun join :: "string \<Rightarrow> string list \<Rightarrow> string" where
  "join sep [] = []"
| "join sep [w] = w"
| "join sep (w # ws) = w @ sep @ join sep ws"

section \<open>Regular expressions\<close>

text \<open>
  The patterns of the program use literals, character classes, greedy \<^verbatim>\<open>*\<close> and \<^verbatim>\<open>+\<close>
  and lazy \<^verbatim>\<open>+?\<close> on one character class, optional parts, alternatives, groups and the
  anchors \<^verbatim>\<open>^\<close> and \<^verbatim>\<open>$\<close>. \<open>Bol\<close> and \<open>Eol\<close> are \<^verbatim>\<open>^\<close> and \<^verbatim>\<open>$\<close> under
  \<^verbatim>\<open>re.MULTILINE\<close>; \<open>Eos\<close> is \<^verbatim>\<open>$\<close> without it (the end of the text, or just before a
  newline that ends it).
\<close>

datatype rx =
    Lit string
  | Cls "char \<Rightarrow> bool"
  | Star "char \<Rightarrow> bool"
  | Plus "char \<Rightarrow> bool"
  | LazyPlus "char \<Rightarrow> bool"
  | Opt rx
  | Alt rx rx
  | Seq rx rx
  | Grp nat rx
  | Bol
  | Eol
  | Eos

fun seqs :: "rx list \<Rightarrow> rx" where
  "seqs [] = Lit []"
| "seqs [r] = r"
| "seqs (r # rs) = Seq r (seqs rs)"

text \<open>
  A matcher state: the character before the current position (if any), the text from the
  current position on, and the groups captured so far (the latest first).
  The matcher is a backtracking matcher in continuation style: \<open>rx_match r k st\<close> tries the
  ways \<open>r\<close> can match at \<open>st\<close> in the order of preference of \<^verbatim>\<open>re\<close> (greedy: longest
  first; lazy: shortest first; alternatives and optional parts: left to right) and returns
  the first for which the rest of the pattern \<open>k\<close> succeeds.
\<close>

type_synonym caps = "(nat \<times> string) list"
type_synonym mstate = "char option \<times> string \<times> caps"

fun last_char :: "char option \<Rightarrow> string \<Rightarrow> char option" where
  "last_char p [] = p"
| "last_char p (x # xs) = last_char (Some x) xs"

fun rep_greedy ::
  "(char \<Rightarrow> bool) \<Rightarrow> nat \<Rightarrow> (mstate \<Rightarrow> 'a option) \<Rightarrow> char option \<Rightarrow> string \<Rightarrow> caps \<Rightarrow> 'a option"
where
  "rep_greedy c n k p [] g = (if n = 0 then k (p, [], g) else None)"
| "rep_greedy c n k p (x # xs) g =
     (if c x then
        (case rep_greedy c (n - 1) k (Some x) xs g of
           Some r \<Rightarrow> Some r
         | None \<Rightarrow> if n = 0 then k (p, x # xs, g) else None)
      else if n = 0 then k (p, x # xs, g) else None)"

fun rep_lazy ::
  "(char \<Rightarrow> bool) \<Rightarrow> nat \<Rightarrow> (mstate \<Rightarrow> 'a option) \<Rightarrow> char option \<Rightarrow> string \<Rightarrow> caps \<Rightarrow> 'a option"
where
  "rep_lazy c n k p [] g = (if n = 0 then k (p, [], g) else None)"
| "rep_lazy c n k p (x # xs) g =
     (if n = 0 then
        (case k (p, x # xs, g) of
           Some r \<Rightarrow> Some r
         | None \<Rightarrow> if c x then rep_lazy c 0 k (Some x) xs g else None)
      else if c x then rep_lazy c (n - 1) k (Some x) xs g else None)"

fun rx_match :: "rx \<Rightarrow> (mstate \<Rightarrow> 'a option) \<Rightarrow> mstate \<Rightarrow> 'a option" where
  "rx_match (Lit w) k (p, s, g) =
     (if take (length w) s = w then k (last_char p w, drop (length w) s, g) else None)"
| "rx_match (Cls c) k (p, s, g) =
     (case s of [] \<Rightarrow> None | x # xs \<Rightarrow> if c x then k (Some x, xs, g) else None)"
| "rx_match (Star c) k (p, s, g) = rep_greedy c 0 k p s g"
| "rx_match (Plus c) k (p, s, g) = rep_greedy c 1 k p s g"
| "rx_match (LazyPlus c) k (p, s, g) = rep_lazy c 1 k p s g"
| "rx_match (Opt r) k st =
     (case rx_match r k st of Some m \<Rightarrow> Some m | None \<Rightarrow> k st)"
| "rx_match (Alt a b) k st =
     (case rx_match a k st of Some m \<Rightarrow> Some m | None \<Rightarrow> rx_match b k st)"
| "rx_match (Seq a b) k st = rx_match a (rx_match b k) st"
| "rx_match (Grp i r) k (p, s, g) =
     rx_match r (\<lambda>(p', s', g'). k (p', s', (i, take (length s - length s') s) # g')) (p, s, g)"
| "rx_match Bol k (p, s, g) = (if p = None \<or> p = Some NL then k (p, s, g) else None)"
| "rx_match Eol k (p, s, g) = (if s = [] \<or> hd s = NL then k (p, s, g) else None)"
| "rx_match Eos k (p, s, g) = (if s = [] \<or> s = [NL] then k (p, s, g) else None)"

text \<open>A match object: the matched text (group 0) and the numbered groups.\<close>

type_synonym match = "string \<times> caps"

definition match_at :: "rx \<Rightarrow> char option \<Rightarrow> string \<Rightarrow> match option" where
  "match_at r p s =
     rx_match r (\<lambda>(p', s', g'). Some (take (length s - length s') s, g')) (p, s, [])"

text \<open>\<^verbatim>\<open>m.group(i)\<close>: \<open>None\<close> for a group that took no part in the match.\<close>

definition group :: "match \<Rightarrow> nat \<Rightarrow> string option" where
  "group m i = (if i = 0 then Some (fst m) else map_of (snd m) i)"

text \<open>The same for a group that takes part in every match of its pattern.\<close>

definition group_text :: "match \<Rightarrow> nat \<Rightarrow> string" where
  "group_text m i = (case group m i of Some w \<Rightarrow> w | None \<Rightarrow> [])"

text \<open>\<^verbatim>\<open>re.match\<close>: at the start of the text only.\<close>

definition re_match :: "rx \<Rightarrow> string \<Rightarrow> match option" where
  "re_match r s = match_at r None s"

text \<open>\<^verbatim>\<open>re.search\<close>: the first position with a match.\<close>

fun search_from :: "rx \<Rightarrow> char option \<Rightarrow> string \<Rightarrow> match option" where
  "search_from r p [] = match_at r p []"
| "search_from r p (x # xs) =
     (case match_at r p (x # xs) of Some m \<Rightarrow> Some m | None \<Rightarrow> search_from r (Some x) xs)"

definition re_search :: "rx \<Rightarrow> string \<Rightarrow> match option" where
  "re_search r s = search_from r None s"

text \<open>
  \<^verbatim>\<open>finditer\<close>: the matches from left to right, without overlap. \<open>skip\<close> counts the
  characters still covered by the last match. No pattern of the program matches the empty
  text; a pattern that did would be reported once per position here.
\<close>

fun finditer_from :: "rx \<Rightarrow> char option \<Rightarrow> string \<Rightarrow> nat \<Rightarrow> match list" where
  "finditer_from r p [] skip =
     (if skip = 0 then (case match_at r p [] of Some m \<Rightarrow> [m] | None \<Rightarrow> []) else [])"
| "finditer_from r p (x # xs) skip =
     (if 0 < skip then finditer_from r (Some x) xs (skip - 1)
      else case match_at r p (x # xs) of
             None \<Rightarrow> finditer_from r (Some x) xs 0
           | Some m \<Rightarrow> m # finditer_from r (Some x) xs (length (fst m) - 1))"

definition re_finditer :: "rx \<Rightarrow> string \<Rightarrow> match list" where
  "re_finditer r s = finditer_from r None s 0"

text \<open>\<^verbatim>\<open>re.sub(pattern, '', s)\<close>: every match is removed.\<close>

fun sub_from :: "rx \<Rightarrow> char option \<Rightarrow> string \<Rightarrow> nat \<Rightarrow> string" where
  "sub_from r p [] skip = []"
| "sub_from r p (x # xs) skip =
     (if 0 < skip then sub_from r (Some x) xs (skip - 1)
      else case match_at r p (x # xs) of
             None \<Rightarrow> x # sub_from r (Some x) xs 0
           | Some m \<Rightarrow> if fst m = [] then x # sub_from r (Some x) xs 0
                       else sub_from r (Some x) xs (length (fst m) - 1))"

definition re_sub_empty :: "rx \<Rightarrow> string \<Rightarrow> string" where
  "re_sub_empty r s = sub_from r None s 0"

section \<open>The patterns of the program\<close>

text \<open>\<^verbatim>\<open>r'\s*\|\s*(undefined|null)'\<close>\<close>

definition undefined_null_rx :: rx where
  "undefined_null_rx = seqs [Star is_space, Lit ''|'', Star is_space,
       Grp 1 (Alt (Lit ''undefined'') (Lit ''null''))]"

text \<open>\<^verbatim>\<open>r'Record<\s*(.+?)\s*,\s*(.+?)\s*>'\<close>\<close>

definition record_rx :: rx where
  "record_rx = seqs [Lit ''Record<'', Star is_space, Grp 1 (LazyPlus not_newline), Star is_space,
       Lit '','', Star is_space, Grp 2 (LazyPlus not_newline), Star is_space, Lit ''>'']"

text \<open>\<^verbatim>\<open>r'interface\s+(\w+)'\<close>\<close>

definition interface_name_rx :: rx where
  "interface_name_rx = seqs [Lit ''interface'', Plus is_space, Grp 1 (Plus is_word)]"

text \<open>
  \<^verbatim>\<open>r'^\s*(?:/\*\*\s*(.+?)\s*\*/\s*)?' r'(\w+)(\??)\s*:\s*(.+?);?\s*$'\<close> with \<^verbatim>\<open>re.MULTILINE\<close>
\<close>

definition field_pattern :: rx where
  "field_pattern = seqs [Bol, Star is_space,
       Opt (seqs [Lit ''/**'', Star is_space, Grp 1 (LazyPlus not_newline), Star is_space,
                  Lit ''*/'', Star is_space]),
       Grp 2 (Plus is_word), Grp 3 (Opt (Lit ''?'')), Star is_space, Lit '':'', Star is_space,
       Grp 4 (LazyPlus not_newline), Opt (Lit '';''), Star is_space, Eol]"

text \<open>\<^verbatim>\<open>r'\{(.+?)\}'\<close> with \<^verbatim>\<open>re.DOTALL\<close>\<close>

definition body_rx :: rx where
  "body_rx = seqs [Lit ''{'', Grp 1 (LazyPlus any_char), Lit ''}'']"

text \<open>\<^verbatim>\<open>r'type\s+(\w+)\s*=\s*(.+?);?\s*$'\<close> with \<^verbatim>\<open>re.DOTALL\<close>\<close>

definition type_alias_rx :: rx where
  "type_alias_rx = seqs [Lit ''type'', Plus is_space, Grp 1 (Plus is_word), Star is_space,
       Lit ''='', Star is_space, Grp 2 (LazyPlus any_char), Opt (Lit '';''), Star is_space, Eos]"

text \<open>\<^verbatim>\<open>r'enum\s+(\w+)'\<close>\<close>

definition enum_name_rx :: rx where
  "enum_name_rx = seqs [Lit ''enum'', Plus is_space, Grp 1 (Plus is_word)]"

text \<open>\<^verbatim>\<open>r'(\w+)\s*(?:=\s*["\'](.+?)["\']\s*)?'\<close> with \<^verbatim>\<open>re.MULTILINE\<close>\<close>

definition value_pattern :: rx where
  "value_pattern = seqs [Grp 1 (Plus is_word), Star is_space,
       Opt (seqs [Lit ''='', Star is_space, Cls is_quote, Grp 2 (LazyPlus not_newline),
                  Cls is_quote, Star is_space])]"

text \<open>\<^verbatim>\<open>r'(?:export\s+)?interface\s+\w+\s*\{[^}]*\}'\<close> with \<^verbatim>\<open>re.DOTALL\<close>\<close>

definition interface_pattern :: rx where
  "interface_pattern = seqs [Opt (seqs [Lit ''export'', Plus is_space]), Lit ''interface'',
       Plus is_space, Plus is_word, Star is_space, Lit ''{'', Star (not_char CHR ''}''), Lit ''}'']"

text \<open>\<^verbatim>\<open>r'(?:export\s+)?type\s+\w+\s*=\s*[^;]+;?'\<close> with \<^verbatim>\<open>re.DOTALL\<close>\<close>

definition type_pattern :: rx where
  "type_pattern = seqs [Opt (seqs [Lit ''export'', Plus is_space]), Lit ''type'',
       Plus is_space, Plus is_word, Star is_space, Lit ''='', Star is_space,
       Plus (not_char CHR '';''), Opt (Lit '';'')]"

text \<open>\<^verbatim>\<open>r'(?:export\s+)?enum\s+\w+\s*\{[^}]*\}'\<close> with \<^verbatim>\<open>re.DOTALL\<close>\<close>

definition enum_pattern :: rx where
  "enum_pattern = seqs [Opt (seqs [Lit ''export'', Plus is_space]), Lit ''enum'',
       Plus is_space, Plus is_word, Star is_space, Lit ''{'', Star (not_char CHR ''}''), Lit ''}'']"

section \<open>The converter\<close>

text \<open>
  The object state: the three registries, dictionaries in insertion order. Assigning to a
  key that is present replaces its value and keeps its place.
\<close>

record converter =
  interfaces :: "(string \<times> string) list"
  types :: "(string \<times> string) list"
  enums :: "(string \<times> string list) list"

definition new_converter :: converter where
  "new_converter = \<lparr>interfaces = [], types = [], enums = []\<rparr>"

fun dict_set :: "'k \<Rightarrow> 'v \<Rightarrow> ('k \<times> 'v) list \<Rightarrow> ('k \<times> 'v) list" where
  "dict_set k v [] = [(k, v)]"
| "dict_set k v ((k', v') # d) =
     (if k' = k then (k, v) # d else (k', v') # dict_set k v d)"

definition has_key :: "'k \<Rightarrow> ('k \<times> 'v) list \<Rightarrow> bool" where
  "has_key k d = (k \<in> set (map fst d))"

definition TYPE_MAP :: "(string \<times> string) list" where
  "TYPE_MAP =
    [(''string'', ''z.string()''),
     (''number'', ''z.number()''),
     (''boolean'', ''z.boolean()''),
     (''Date'', ''z.date()''),
     (''any'', ''z.any()''),
     (''unknown'', ''z.unknown()''),
     (''null'', ''z.null()''),
     (''undefined'', ''z.undefined()''),
     (''void'', ''z.void()'')]"

text \<open>
  The exceptions of the program: the \<^verbatim>\<open>ValueError\<close> that the parsers raise, and the
  \<^verbatim>\<open>RecursionError\<close> that the interpreter raises when a call would exceed the limit on
  the depth of the call stack.
\<close>

datatype error = ValueError string | RecursionError

subsection \<open>convert_type\<close>

text \<open>
  The first lines of \<^verbatim>\<open>convert_type\<close> rewrite \<^verbatim>\<open>ts_type\<close> and \<^verbatim>\<open>optional\<close>:
  \<^verbatim>\<open>strip()\<close>, a trailing \<^verbatim>\<open>?\<close>, then the branches \<^verbatim>\<open>| undefined\<close> and \<^verbatim>\<open>| null\<close>.
  \<open>norm_type\<close> is \<^verbatim>\<open>ts_type\<close> and \<open>norm_optional\<close> is \<^verbatim>\<open>optional\<close> after these lines.
\<close>

definition strip_question :: "string \<Rightarrow> string" where
  "strip_question t = (if endswith t ''?'' then strip (take (length t - 1) t) else t)"

definition has_absent_branch :: "string \<Rightarrow> bool" where
  "has_absent_branch t = (py_in '' | undefined'' t \<or> py_in '' | null'' t)"

definition norm_type :: "string \<Rightarrow> string" where
  "norm_type ts_type =
     (let t = strip_question (strip ts_type)
      in if has_absent_branch t then strip (re_sub_empty undefined_null_rx t) else t)"

definition norm_optional :: "string \<Rightarrow> bool \<Rightarrow> bool" where
  "norm_optional ts_type optional =
     (optional \<or> endswith (strip ts_type) ''?'' \<or>
      has_absent_branch (strip_question (strip ts_type)))"

text \<open>\<^verbatim>\<open>match.group(2)\<close> of the \<^verbatim>\<open>Record\<close> pattern, if it matches.\<close>

definition record_value_type :: "string \<Rightarrow> string option" where
  "record_value_type t =
     (case re_match record_rx t of None \<Rightarrow> None | Some m \<Rightarrow> group m 2)"

function convert_type :: "converter \<Rightarrow> string \<Rightarrow> bool \<Rightarrow> string" where
  "convert_type self ts_type optional =
     (let t = norm_type ts_type;
          zod =
            (case map_of TYPE_MAP t of
               Some z \<Rightarrow> z
             | None \<Rightarrow>
                 if endswith t ''[]'' then
                   ''z.array('' @ convert_type self (strip (take (length t - 2) t)) False @ '')''
                 else if startswith t ''Array<'' \<and> endswith t ''>'' then
                   ''z.array('' @
                     convert_type self (strip (drop 6 (take (length t - 1) t))) False @ '')''
                 else if startswith t ''Record<'' then
                   (case record_value_type t of
                      Some value_type \<Rightarrow>
                        ''z.record('' @ convert_type self value_type False @ '')''
                    | None \<Rightarrow> ''z.record(z.any())'')
                 else if py_in '' | '' t then
                   ''z.union(['' @
                     join '', ''
                       (map (\<lambda>u. convert_type self u False) (map strip (split_on CHR ''|'' t)))
                     @ ''])''
                 else if startswith t [SQ] \<or> startswith t [DQ] then
                   ''z.literal('' @ t @ '')''
                 else if has_key t (interfaces self) \<or> has_key t (types self)
                         \<or> has_key t (enums self) then
                   t @ ''Schema''
                 else
                   ''z.any() /* TODO: define schema for '' @ t @ '' */'')
      in if norm_optional ts_type optional then zod @ ''.optional()'' else zod)"
  by pat_completeness auto

text \<open>
  The list comprehension of the union rule, \<^verbatim>\<open>[self.convert_type(t) for t in union_types]\<close>,
  as a function of its own.
\<close>

definition convert_all :: "converter \<Rightarrow> string list \<Rightarrow> string list" where
  "convert_all self us = map (\<lambda>u. convert_type self u False) us"

subsection \<open>Parsing declarations\<close>

text \<open>A field: name, type expression, optional flag, description.\<close>

type_synonym field = "string \<times> string \<times> bool \<times> string option"

definition field_of_match :: "match \<Rightarrow> field" where
  "field_of_match m =
     (group_text m 2, strip (group_text m 4), group m 3 = Some ''?'', group m 1)"

definition parse_interface :: "string \<Rightarrow> error + (string \<times> field list)" where
  "parse_interface interface_str =
     (case re_search interface_name_rx interface_str of
        None \<Rightarrow> Inl (ValueError ''Could not parse interface name'')
      | Some name_match \<Rightarrow>
          Inr (group_text name_match 1,
               (case re_search body_rx interface_str of
                  None \<Rightarrow> []
                | Some body_match \<Rightarrow>
                    map field_of_match (re_finditer field_pattern (group_text body_match 1)))))"

definition parse_type_alias :: "string \<Rightarrow> error + (string \<times> string)" where
  "parse_type_alias type_str =
     (case re_search type_alias_rx type_str of
        None \<Rightarrow> Inl (ValueError ''Could not parse type alias'')
      | Some m \<Rightarrow> Inr (group_text m 1, rstrip_char CHR '';'' (strip (group_text m 2))))"

text \<open>\<^verbatim>\<open>match.group(2) if match.group(2) else match.group(1)\<close>\<close>

definition value_of_match :: "match \<Rightarrow> string" where
  "value_of_match m =
     (case group m 2 of
        Some v \<Rightarrow> if v \<noteq> [] then v else group_text m 1
      | None \<Rightarrow> group_text m 1)"

definition parse_enum :: "string \<Rightarrow> error + (string \<times> string list)" where
  "parse_enum enum_str =
     (case re_search enum_name_rx enum_str of
        None \<Rightarrow> Inl (ValueError ''Could not parse enum name'')
      | Some name_match \<Rightarrow>
          Inr (group_text name_match 1,
               (case re_search body_rx enum_str of
                  None \<Rightarrow> []
                | Some body_match \<Rightarrow>
                    map value_of_match (re_finditer value_pattern (group_text body_match 1)))))"

subsection \<open>Emitting schemas\<close>

definition field_line :: "converter \<Rightarrow> field \<Rightarrow> string" where
  "field_line self f =
     (case f of (field_name, field_type, optional, description) \<Rightarrow>
        let zod_type = convert_type self field_type optional in
        (case description of
           Some d \<Rightarrow>
             if d \<noteq> [] then
               ''  '' @ field_name @ '': '' @ zod_type @ ''.describe('' @ [DQ] @ d @ [DQ] @ ''),''
             else ''  '' @ field_name @ '': '' @ zod_type @ '',''
         | None \<Rightarrow> ''  '' @ field_name @ '': '' @ zod_type @ '',''))"

definition interface_to_zod :: "converter \<Rightarrow> string \<Rightarrow> field list \<Rightarrow> string" where
  "interface_to_zod self name fieldlist =
     join [NL]
       ([''export const '' @ name @ ''Schema = z.object({''] @
        map (field_line self) fieldlist @
        [''});'', [], ''export type '' @ name @ '' = z.infer<typeof '' @ name @ ''Schema>;''])"

definition type_alias_to_zod :: "converter \<Rightarrow> string \<Rightarrow> string \<Rightarrow> string" where
  "type_alias_to_zod self name type_def =
     join [NL]
       [''export const '' @ name @ ''Schema = '' @ convert_type self type_def False @ '';'',
        [],
        ''export type '' @ name @ '' = z.infer<typeof '' @ name @ ''Schema>;'']"

definition enum_to_zod :: "string \<Rightarrow> string list \<Rightarrow> string" where
  "enum_to_zod name values =
     (let quoted_values = map (\<lambda>v. [DQ] @ v @ [DQ]) values;
          zod_def =
            (if length values = 1 then ''z.literal('' @ quoted_values ! 0 @ '')''
             else ''z.enum(['' @ join '', '' quoted_values @ ''])'')
      in join [NL]
           [''export const '' @ name @ ''Schema = '' @ zod_def @ '';'',
            [],
            ''export type '' @ name @ '' = z.infer<typeof '' @ name @ ''Schema>;''])"

subsection \<open>convert_file\<close>

text \<open>
  The three loops that fill the registries. A declaration whose parser raises
  \<^verbatim>\<open>ValueError\<close> is passed over (\<^verbatim>\<open>except ValueError: pass\<close>).
\<close>

definition register_interface :: "converter \<Rightarrow> match \<Rightarrow> converter" where
  "register_interface self m =
     (let interface_str = fst m in
      case parse_interface interface_str of
        Inr (name, fieldlist) \<Rightarrow> self\<lparr>interfaces := dict_set name interface_str (interfaces self)\<rparr>
      | Inl e \<Rightarrow> self)"

definition register_type :: "converter \<Rightarrow> match \<Rightarrow> converter" where
  "register_type self m =
     (case parse_type_alias (fst m) of
        Inr (name, type_def) \<Rightarrow> self\<lparr>types := dict_set name type_def (types self)\<rparr>
      | Inl e \<Rightarrow> self)"

definition register_enum :: "converter \<Rightarrow> match \<Rightarrow> converter" where
  "register_enum self m =
     (case parse_enum (fst m) of
        Inr (name, values) \<Rightarrow> self\<lparr>enums := dict_set name values (enums self)\<rparr>
      | Inl e \<Rightarrow> self)"

definition populate :: "converter \<Rightarrow> string \<Rightarrow> converter" where
  "populate self input_content =
     (let self1 = foldl register_interface self (re_finditer interface_pattern input_content);
          self2 = foldl register_type self1 (re_finditer type_pattern input_content)
      in foldl register_enum self2 (re_finditer enum_pattern input_content))"

text \<open>
  The three loops that emit. The last one parses each stored interface text again, outside
  any \<^verbatim>\<open>try\<close>: an error there leaves \<^verbatim>\<open>convert_file\<close>.
\<close>

fun emit_enums :: "string list \<Rightarrow> (string \<times> string list) list \<Rightarrow> string list" where
  "emit_enums output_lines [] = output_lines"
| "emit_enums output_lines ((name, values) # rest) =
     emit_enums (output_lines @ [enum_to_zod name values] @ [[]]) rest"

fun emit_types :: "converter \<Rightarrow> string list \<Rightarrow> (string \<times> string) list \<Rightarrow> string list" where
  "emit_types self output_lines [] = output_lines"
| "emit_types self output_lines ((name, type_def) # rest) =
     emit_types self (output_lines @ [type_alias_to_zod self name type_def] @ [[]]) rest"

fun emit_interfaces ::
  "converter \<Rightarrow> string list \<Rightarrow> (string \<times> string) list \<Rightarrow> error + string list" where
  "emit_interfaces self output_lines [] = Inr output_lines"
| "emit_interfaces self output_lines ((name, interface_str) # rest) =
     (case parse_interface interface_str of
        Inl e \<Rightarrow> Inl e
      | Inr (n, fieldlist) \<Rightarrow>
          emit_interfaces self (output_lines @ [interface_to_zod self name fieldlist] @ [[]]) rest)"

definition header_lines :: "string list" where
  "header_lines =
     [''import { z } from '' @ [SQ] @ ''zod'' @ [SQ] @ '';'',
      [],
      ''// Auto-generated Zod schemas'',
      []]"

text \<open>\<^verbatim>\<open>convert_file\<close> returns the text and leaves the registries filled.\<close>

definition convert_file :: "converter \<Rightarrow> string \<Rightarrow> error + (string \<times> converter)" where
  "convert_file self input_content =
     (let self' = populate self input_content;
          output_lines = emit_types self' (emit_enums header_lines (enums self')) (types self')
      in case emit_interfaces self' output_lines (interfaces self') of
           Inl e \<Rightarrow> Inl e
         | Inr output_lines' \<Rightarrow> Inr (join [NL] output_lines', self'))"

definition convert_file_output :: "string \<Rightarrow> error + string" where
  "convert_file_output input_content =
     (case convert_file new_converter input_content of
        Inl e \<Rightarrow> Inl e
      | Inr (out, self') \<Rightarrow> Inr out)"


section \<open>The recursion limit\<close>

text \<open>
  \<^verbatim>\<open>convert_type\<close> calls itself once for each level of nesting of the type expression
  (lines 57, 62, 69 and 76), and each call takes a frame of the interpreter's call stack.
  The functions of this section are \<^verbatim>\<open>convert_type\<close> and its callers with that limit
  made explicit: \<open>depth\<close> is the number of nested calls of \<^verbatim>\<open>convert_type\<close> for which
  the stack has room at the place of the call, and the call that would exceed it raises
  \<^verbatim>\<open>RecursionError\<close>. Nothing in the program catches this error before \<^verbatim>\<open>main\<close>.
  The frames of the list comprehension are not counted. Where these functions return a
  result, it is the result of the functions above.
\<close>

text \<open>A loop or comprehension whose body may raise: the first error ends it.\<close>

fun collect :: "(error + 'a) list \<Rightarrow> error + 'a list" where
  "collect [] = Inr []"
| "collect (r # rs) =
     (case r of
        Inl e \<Rightarrow> Inl e
      | Inr x \<Rightarrow> (case collect rs of Inl e \<Rightarrow> Inl e | Inr xs \<Rightarrow> Inr (x # xs)))"

fun convert_type_depth :: "nat \<Rightarrow> converter \<Rightarrow> string \<Rightarrow> bool \<Rightarrow> error + string" where
  "convert_type_depth 0 self ts_type optional = Inl RecursionError"
| "convert_type_depth (Suc depth) self ts_type optional =
     (let t = norm_type ts_type;
          zod =
            (case map_of TYPE_MAP t of
               Some z \<Rightarrow> Inr z
             | None \<Rightarrow>
                 if endswith t ''[]'' then
                   (case convert_type_depth depth self (strip (take (length t - 2) t)) False of
                      Inl e \<Rightarrow> Inl e
                    | Inr inner_zod \<Rightarrow> Inr (''z.array('' @ inner_zod @ '')''))
                 else if startswith t ''Array<'' \<and> endswith t ''>'' then
                   (case convert_type_depth depth self
                           (strip (drop 6 (take (length t - 1) t))) False of
                      Inl e \<Rightarrow> Inl e
                    | Inr inner_zod \<Rightarrow> Inr (''z.array('' @ inner_zod @ '')''))
                 else if startswith t ''Record<'' then
                   (case record_value_type t of
                      Some value_type \<Rightarrow>
                        (case convert_type_depth depth self value_type False of
                           Inl e \<Rightarrow> Inl e
                         | Inr value_zod \<Rightarrow> Inr (''z.record('' @ value_zod @ '')''))
                    | None \<Rightarrow> Inr ''z.record(z.any())'')
                 else if py_in '' | '' t then
                   (case collect (map (\<lambda>u. convert_type_depth depth self u False)
                                   (map strip (split_on CHR ''|'' t))) of
                      Inl e \<Rightarrow> Inl e
                    | Inr union_zods \<Rightarrow> Inr (''z.union(['' @ join '', '' union_zods @ ''])''))
                 else if startswith t [SQ] \<or> startswith t [DQ] then
                   Inr (''z.literal('' @ t @ '')'')
                 else if has_key t (interfaces self) \<or> has_key t (types self)
                         \<or> has_key t (enums self) then
                   Inr (t @ ''Schema'')
                 else
                   Inr (''z.any() /* TODO: define schema for '' @ t @ '' */''))
      in case zod of
           Inl e \<Rightarrow> Inl e
         | Inr z \<Rightarrow> Inr (if norm_optional ts_type optional then z @ ''.optional()'' else z))"

definition field_line_depth :: "nat \<Rightarrow> converter \<Rightarrow> field \<Rightarrow> error + string" where
  "field_line_depth depth self f =
     (case f of (field_name, field_type, optional, description) \<Rightarrow>
        case convert_type_depth depth self field_type optional of
          Inl e \<Rightarrow> Inl e
        | Inr zod_type \<Rightarrow>
            Inr (case description of
                   Some d \<Rightarrow>
                     if d \<noteq> [] then
                       ''  '' @ field_name @ '': '' @ zod_type @ ''.describe('' @ [DQ] @ d @ [DQ] @ ''),''
                     else ''  '' @ field_name @ '': '' @ zod_type @ '',''
                 | None \<Rightarrow> ''  '' @ field_name @ '': '' @ zod_type @ '',''))"

definition interface_to_zod_depth ::
  "nat \<Rightarrow> converter \<Rightarrow> string \<Rightarrow> field list \<Rightarrow> error + string" where
  "interface_to_zod_depth depth self name fieldlist =
     (case collect (map (field_line_depth depth self) fieldlist) of
        Inl e \<Rightarrow> Inl e
      | Inr field_lines \<Rightarrow>
          Inr (join [NL]
                 ([''export const '' @ name @ ''Schema = z.object({''] @
                  field_lines @
                  [''});'', [],
                   ''export type '' @ name @ '' = z.infer<typeof '' @ name @ ''Schema>;''])))"

definition type_alias_to_zod_depth ::
  "nat \<Rightarrow> converter \<Rightarrow> string \<Rightarrow> string \<Rightarrow> error + string" where
  "type_alias_to_zod_depth depth self name type_def =
     (case convert_type_depth depth self type_def False of
        Inl e \<Rightarrow> Inl e
      | Inr zod_type \<Rightarrow>
          Inr (join [NL]
                 [''export const '' @ name @ ''Schema = '' @ zod_type @ '';'',
                  [],
                  ''export type '' @ name @ '' = z.infer<typeof '' @ name @ ''Schema>;'']))"

fun emit_types_depth ::
  "nat \<Rightarrow> converter \<Rightarrow> string list \<Rightarrow> (string \<times> string) list \<Rightarrow> error + string list" where
  "emit_types_depth depth self output_lines [] = Inr output_lines"
| "emit_types_depth depth self output_lines ((name, type_def) # rest) =
     (case type_alias_to_zod_depth depth self name type_def of
        Inl e \<Rightarrow> Inl e
      | Inr schema \<Rightarrow> emit_types_depth depth self (output_lines @ [schema] @ [[]]) rest)"

fun emit_interfaces_depth ::
  "nat \<Rightarrow> converter \<Rightarrow> string list \<Rightarrow> (string \<times> string) list \<Rightarrow> error + string list" where
  "emit_interfaces_depth depth self output_lines [] = Inr output_lines"
| "emit_interfaces_depth depth self output_lines ((name, interface_str) # rest) =
     (case parse_interface interface_str of
        Inl e \<Rightarrow> Inl e
      | Inr (n, fieldlist) \<Rightarrow>
          (case interface_to_zod_depth depth self name fieldlist of
             Inl e \<Rightarrow> Inl e
           | Inr schema \<Rightarrow>
               emit_interfaces_depth depth self (output_lines @ [schema] @ [[]]) rest))"

definition convert_file_depth ::
  "nat \<Rightarrow> converter \<Rightarrow> string \<Rightarrow> error + (string \<times> converter)" where
  "convert_file_depth depth self input_content =
     (let self' = populate self input_content
      in case emit_types_depth depth self' (emit_enums header_lines (enums self')) (types self') of
           Inl e \<Rightarrow> Inl e
         | Inr output_lines \<Rightarrow>
             (case emit_interfaces_depth depth self' output_lines (interfaces self') of
                Inl e \<Rightarrow> Inl e
              | Inr output_lines' \<Rightarrow> Inr (join [NL] output_lines', self')))"

section \<open>Notions used to state the properties\<close>

text \<open>A match and its groups are no longer than \<open>n\<close>.\<close>

definition match_within :: "nat \<Rightarrow> match \<Rightarrow> bool" where
  "match_within n m = (length (fst m) \<le> n \<and> (\<forall>(i, w) \<in> set (snd m). length w \<le> n))"

text \<open>An identifier: one or more word characters, the texts matched by \<^verbatim>\<open>\w+\<close>.\<close>

definition is_identifier :: "string \<Rightarrow> bool" where
  "is_identifier w = (w \<noteq> [] \<and> (\<forall>c \<in> set w. is_word c))"

text \<open>The wrapper that \<^verbatim>\<open>convert_type\<close> adds for an optional type.\<close>

definition optional_suffix :: "bool \<Rightarrow> string" where
  "optional_suffix b = (if b then ''.optional()'' else [])"

text \<open>
  Splitting at the top level only, as the specification words it: a \<^verbatim>\<open>|\<close> is a split
  point only outside every \<^verbatim>\<open><...>\<close> and \<^verbatim>\<open>(...)\<close>. \<open>depth\<close> counts the brackets that
  are open.
\<close>

fun split_top_level_from :: "nat \<Rightarrow> string \<Rightarrow> string list" where
  "split_top_level_from depth [] = [[]]"
| "split_top_level_from depth (x # xs) =
     (if x = CHR ''|'' \<and> depth = 0 then [] # split_top_level_from depth xs
      else
        let depth' = (if x = CHR ''<'' \<or> x = CHR ''('' then depth + 1
                      else if x = CHR ''>'' \<or> x = CHR '')'' then depth - 1
                      else depth)
        in case split_top_level_from depth' xs of w # ws \<Rightarrow> (x # w) # ws | [] \<Rightarrow> [[x]])"

definition split_top_level :: "string \<Rightarrow> string list" where
  "split_top_level s = split_top_level_from 0 s"

text \<open>
  The declarations that the three scanning loops of \<^verbatim>\<open>convert_file\<close> parse without
  error, in the order of the input, before they are stored under their names.
\<close>

definition parsed_interfaces :: "string \<Rightarrow> (string \<times> string) list" where
  "parsed_interfaces input_content =
     concat (map (\<lambda>m. case parse_interface (fst m) of
                         Inr (name, fieldlist) \<Rightarrow> [(name, fst m)] | Inl e \<Rightarrow> [])
                 (re_finditer interface_pattern input_content))"

definition parsed_types :: "string \<Rightarrow> (string \<times> string) list" where
  "parsed_types input_content =
     concat (map (\<lambda>m. case parse_type_alias (fst m) of
                         Inr (name, type_def) \<Rightarrow> [(name, type_def)] | Inl e \<Rightarrow> [])
                 (re_finditer type_pattern input_content))"

definition parsed_enums :: "string \<Rightarrow> (string \<times> string list) list" where
  "parsed_enums input_content =
     concat (map (\<lambda>m. case parse_enum (fst m) of
                         Inr (name, values) \<Rightarrow> [(name, values)] | Inl e \<Rightarrow> [])
                 (re_finditer enum_pattern input_content))"

text \<open>The lines emitted for one declaration: the schema with its type binding, and a blank line.\<close>

definition enum_block :: "string \<times> string list \<Rightarrow> string list" where
  "enum_block d = [enum_to_zod (fst d) (snd d), []]"

definition type_block :: "converter \<Rightarrow> string \<times> string \<Rightarrow> string list" where
  "type_block self d = [type_alias_to_zod self (fst d) (snd d), []]"

definition interface_fields :: "string \<Rightarrow> field list" where
  "interface_fields interface_str =
     (case parse_interface interface_str of Inr (name, fieldlist) \<Rightarrow> fieldlist | Inl e \<Rightarrow> [])"

definition interface_block :: "converter \<Rightarrow> string \<times> string \<Rightarrow> string list" where
  "interface_block self d = [interface_to_zod self (fst d) (interface_fields (snd d)), []]"

text \<open>
  A text is matched by a rule that \<^verbatim>\<open>convert_type\<close> tries before its last \<^verbatim>\<open>else\<close>:
  the conditions of the \<^verbatim>\<open>if\<close>/\<^verbatim>\<open>elif\<close> chain, on the rewritten type expression.
\<close>

definition matched_by_rule :: "converter \<Rightarrow> string \<Rightarrow> bool" where
  "matched_by_rule self t =
     (map_of TYPE_MAP t \<noteq> None \<or> endswith t ''[]'' \<or>
      (startswith t ''Array<'' \<and> endswith t ''>'') \<or> startswith t ''Record<'' \<or>
      py_in '' | '' t \<or> startswith t [SQ] \<or> startswith t [DQ] \<or>
      has_key t (interfaces self) \<or> has_key t (types self) \<or> has_key t (enums self))"

text \<open>The dictionary that results from assigning the pairs in order to an empty one.\<close>

definition dict_of :: "('k \<times> 'v) list \<Rightarrow> ('k \<times> 'v) list" where
  "dict_of kvs = foldl (\<lambda>d kv. dict_set (fst kv) (snd kv) d) [] kvs"

text \<open>
  The output as the specification words it: the header, then one pair for each parsed
  declaration, enumerations first, then aliases, then shapes.
\<close>

definition one_pair_per_declaration :: "string \<Rightarrow> string" where
  "one_pair_per_declaration input_content =
     (let self' = populate new_converter input_content
      in join [NL]
           (header_lines @
            concat (map enum_block (parsed_enums input_content)) @
            concat (map (type_block self') (parsed_types input_content)) @
            concat (map (interface_block self') (parsed_interfaces input_content))))"

section \<open>Termination of convert_type\<close>

text \<open>
  Every recursive call of \<^verbatim>\<open>convert_type\<close> is on a strictly shorter text: the
  rewriting at the start never lengthens the text, a group of a match is shorter than a
  text that starts with a literal, and the parts of a split are shorter than the whole.
\<close>

lemma length_lstrip: "length (lstrip s) \<le> length s"
  by (simp add: lstrip_def length_dropWhile_le)

lemma length_rstrip: "length (rstrip s) \<le> length s"
  using length_dropWhile_le [of is_space "rev s"] by (simp add: rstrip_def)

lemma length_strip: "length (strip s) \<le> length s"
  using length_rstrip [of "lstrip s"] length_lstrip [of s] by (simp add: strip_def)

lemma length_sub_from: "length (sub_from r p s skip) \<le> length s"
  by (induction s arbitrary: p skip) (auto split: option.splits simp: le_SucI)

lemma length_re_sub_empty: "length (re_sub_empty r s) \<le> length s"
  by (simp add: re_sub_empty_def length_sub_from)

lemma length_strip_question: "length (strip_question t) \<le> length t"
proof (cases "endswith t ''?''")
  case True
  have "length (strip (take (length t - 1) t)) \<le> length (take (length t - 1) t)"
    by (rule length_strip)
  with True show ?thesis by (simp add: strip_question_def)
next
  case False
  then show ?thesis by (simp add: strip_question_def)
qed

lemma length_norm_type: "length (norm_type ts) \<le> length ts"
proof -
  let ?t = "strip_question (strip ts)"
  have t: "length ?t \<le> length ts"
    using length_strip_question [of "strip ts"] length_strip [of ts] by (rule order_trans)
  have "length (strip (re_sub_empty undefined_null_rx ?t)) \<le> length ?t"
    using length_strip [of "re_sub_empty undefined_null_rx ?t"]
      length_re_sub_empty [of undefined_null_rx ?t] by (rule order_trans)
  then have "length (norm_type ts) \<le> length ?t"
    by (cases "has_absent_branch ?t") (simp_all add: norm_type_def Let_def)
  then show ?thesis using t by (rule order_trans)
qed

definition bounded :: "nat \<Rightarrow> mstate \<Rightarrow> bool" where
  "bounded n st = (case st of (p, s, g) \<Rightarrow> length s \<le> n \<and> (\<forall>(i, w) \<in> set g. length w \<le> n))"

lemma rep_greedy_reaches:
  "rep_greedy c m k p s g = Some res \<Longrightarrow> \<exists>p' s'. length s' \<le> length s \<and> k (p', s', g) = Some res"
proof (induction s arbitrary: m p)
  case Nil
  then show ?case by (auto split: if_splits)
next
  case (Cons x xs)
  show ?case
  proof (cases "rep_greedy c (m - 1) k (Some x) xs g")
    case None
    with Cons.prems have "k (p, x # xs, g) = Some res" by (auto split: if_splits)
    then show ?thesis by blast
  next
    case (Some r)
    show ?thesis
    proof (cases "c x")
      case True
      with Some Cons.prems have "rep_greedy c (m - 1) k (Some x) xs g = Some res" by simp
      from Cons.IH [OF this] show ?thesis by (auto intro: le_SucI)
    next
      case False
      with Cons.prems have "k (p, x # xs, g) = Some res" by (auto split: if_splits)
      then show ?thesis by blast
    qed
  qed
qed

lemma rep_lazy_reaches:
  "rep_lazy c m k p s g = Some res \<Longrightarrow> \<exists>p' s'. length s' \<le> length s \<and> k (p', s', g) = Some res"
proof (induction s arbitrary: m p)
  case Nil
  then show ?case by (auto split: if_splits)
next
  case (Cons x xs)
  show ?case
  proof (cases "m = 0 \<and> k (p, x # xs, g) \<noteq> None")
    case True
    with Cons.prems have "k (p, x # xs, g) = Some res" by auto
    then show ?thesis by blast
  next
    case False
    with Cons.prems have "\<exists>m'. rep_lazy c m' k (Some x) xs g = Some res"
      by (auto split: if_splits option.splits)
    then obtain m' where "rep_lazy c m' k (Some x) xs g = Some res" ..
    from Cons.IH [OF this] show ?thesis by (auto intro: le_SucI)
  qed
qed

lemma rx_match_reaches:
  "rx_match r k st = Some res \<Longrightarrow> bounded n st \<Longrightarrow> \<exists>st'. bounded n st' \<and> k st' = Some res"
proof (induction r arbitrary: k st)
  case (Lit w)
  obtain p s g where st: "st = (p, s, g)" by (cases st)
  with Lit have "k (last_char p w, drop (length w) s, g) = Some res" and "bounded n (last_char p w, drop (length w) s, g)"
    by (auto simp: bounded_def split: if_splits)
  then show ?case by blast
next
  case (Cls c)
  obtain p s g where st: "st = (p, s, g)" by (cases st)
  with Cls obtain x xs where "s = x # xs" "k (Some x, xs, g) = Some res"
    by (auto split: list.splits if_splits)
  moreover with Cls st have "bounded n (Some x, xs, g)" by (auto simp: bounded_def)
  ultimately show ?case by blast
next
  case (Star c)
  obtain p s g where st: "st = (p, s, g)" by (cases st)
  with Star have "rep_greedy c 0 k p s g = Some res" by simp
  from rep_greedy_reaches [OF this] obtain p' s' where "length s' \<le> length s" "k (p', s', g) = Some res" by blast
  moreover with Star st have "bounded n (p', s', g)" by (auto simp: bounded_def)
  ultimately show ?case by blast
next
  case (Plus c)
  obtain p s g where st: "st = (p, s, g)" by (cases st)
  with Plus have "rep_greedy c 1 k p s g = Some res" by simp
  from rep_greedy_reaches [OF this] obtain p' s' where "length s' \<le> length s" "k (p', s', g) = Some res" by blast
  moreover with Plus st have "bounded n (p', s', g)" by (auto simp: bounded_def)
  ultimately show ?case by blast
next
  case (LazyPlus c)
  obtain p s g where st: "st = (p, s, g)" by (cases st)
  with LazyPlus have "rep_lazy c 1 k p s g = Some res" by simp
  from rep_lazy_reaches [OF this] obtain p' s' where "length s' \<le> length s" "k (p', s', g) = Some res" by blast
  moreover with LazyPlus st have "bounded n (p', s', g)" by (auto simp: bounded_def)
  ultimately show ?case by blast
next
  case (Opt r)
  show ?case
  proof (cases "rx_match r k st")
    case None
    with Opt.prems have "k st = Some res" by simp
    with Opt.prems(2) show ?thesis by blast
  next
    case (Some m)
    with Opt.prems have "rx_match r k st = Some res" by simp
    from Opt.IH [OF this Opt.prems(2)] show ?thesis .
  qed
next
  case (Alt a b)
  show ?case
  proof (cases "rx_match a k st")
    case None
    with Alt.prems have "rx_match b k st = Some res" by simp
    from Alt.IH(2) [OF this Alt.prems(2)] show ?thesis .
  next
    case (Some m)
    with Alt.prems have "rx_match a k st = Some res" by simp
    from Alt.IH(1) [OF this Alt.prems(2)] show ?thesis .
  qed
next
  case (Seq a b)
  from Seq.prems have "rx_match a (rx_match b k) st = Some res" by simp
  from Seq.IH(1) [OF this Seq.prems(2)] obtain st' where "bounded n st'" "rx_match b k st' = Some res" by blast
  from Seq.IH(2) [OF this(2) this(1)] show ?case .
next
  case (Grp i r)
  obtain p s g where st: "st = (p, s, g)" by (cases st)
  let ?k = "\<lambda>(p', s', g'). k (p', s', (i, take (length s - length s') s) # g')"
  from Grp.prems st have "rx_match r ?k st = Some res" by simp
  from Grp.IH [OF this Grp.prems(2)] obtain st' where b: "bounded n st'" and k: "?k st' = Some res" by blast
  obtain p' s' g' where st': "st' = (p', s', g')" by (cases st')
  from Grp.prems(2) st have "length s \<le> n" by (simp add: bounded_def)
  with b st' have "bounded n (p', s', (i, take (length s - length s') s) # g')"
    by (auto simp: bounded_def)
  with k st' show ?case by auto
next
  case Bol
  then show ?case by (cases st) (auto split: if_splits)
next
  case Eol
  then show ?case by (cases st) (auto split: if_splits)
next
  case Eos
  then show ?case by (cases st) (auto split: if_splits)
qed

lemma group_shorter:
  assumes m: "re_match (Seq (Lit w) r) t = Some m" and w: "w \<noteq> []"
    and v: "map_of (snd m) i = Some v"
  shows "length v < length t"
proof -
  let ?k = "\<lambda>(p', s', g'). Some (take (length t - length s') t, g')"
  from m have pre: "take (length w) t = w"
    and run: "rx_match r ?k (last_char None w, drop (length w) t, []) = Some m"
    by (auto simp: re_match_def match_at_def split: if_splits)
  from pre have len: "length w \<le> length t"
    by (metis length_take min.cobounded1)
  have "bounded (length t - length w) (last_char None w, drop (length w) t, [])"
    by (simp add: bounded_def)
  from rx_match_reaches [OF run this] obtain st'
    where b: "bounded (length t - length w) st'" and k: "?k st' = Some m"
    by blast
  obtain p' s' g' where st': "st' = (p', s', g')" by (cases st')
  from k st' have "snd m = g'" by auto
  with v have "(i, v) \<in> set g'" by (auto dest: map_of_SomeD)
  with b st' have "length v \<le> length t - length w" by (auto simp: bounded_def)
  with len w show ?thesis by (cases w) auto
qed

lemma record_value_type_shorter:
  assumes "record_value_type t = Some v"
  shows "length v < length t"
proof -
  from assms obtain m where m: "re_match record_rx t = Some m" and v: "map_of (snd m) 2 = Some v"
    by (auto simp: record_value_type_def group_def split: option.splits)
  have "\<exists>r. record_rx = Seq (Lit ''Record<'') r"
    by (simp add: record_rx_def)
  then obtain r where "record_rx = Seq (Lit ''Record<'') r" ..
  with m have "re_match (Seq (Lit ''Record<'') r) t = Some m" by simp
  from group_shorter [OF this _ v] show ?thesis by simp
qed

lemma split_on_nonempty: "split_on c s \<noteq> []"
  by (induction s) (auto split: list.splits)

lemma split_on_length: "u \<in> set (split_on c s) \<Longrightarrow> length u \<le> length s"
proof (induction s arbitrary: u)
  case Nil
  then show ?case by simp
next
  case (Cons x xs)
  obtain w ws where ws: "split_on c xs = w # ws"
    using split_on_nonempty [of c xs] by (cases "split_on c xs") auto
  show ?case
  proof (cases "x = c")
    case True
    with Cons.prems have "u = [] \<or> u \<in> set (split_on c xs)" by simp
    then show ?thesis using Cons.IH by (auto intro: le_SucI)
  next
    case False
    with Cons.prems ws have "u = x # w \<or> u \<in> set ws" by simp
    then show ?thesis
    proof
      assume "u = x # w"
      then show ?thesis using Cons.IH [of w] ws by simp
    next
      assume "u \<in> set ws"
      then show ?thesis using Cons.IH [of u] ws by (auto intro: le_SucI)
    qed
  qed
qed

lemma split_on_shorter:
  "c \<in> set s \<Longrightarrow> u \<in> set (split_on c s) \<Longrightarrow> length u < length s"
proof (induction s arbitrary: u)
  case Nil
  then show ?case by simp
next
  case (Cons x xs)
  obtain w ws where ws: "split_on c xs = w # ws"
    using split_on_nonempty [of c xs] by (cases "split_on c xs") auto
  show ?case
  proof (cases "x = c")
    case True
    with Cons.prems have "u = [] \<or> u \<in> set (split_on c xs)" by simp
    then show ?thesis using split_on_length [of u c xs] by auto
  next
    case False
    with Cons.prems have cin: "c \<in> set xs" by auto
    from False Cons.prems ws have "u = x # w \<or> u \<in> set ws" by simp
    then show ?thesis
    proof
      assume "u = x # w"
      then show ?thesis using Cons.IH [OF cin, of w] ws by simp
    next
      assume "u \<in> set ws"
      then show ?thesis using Cons.IH [OF cin, of u] ws by (auto intro: less_SucI)
    qed
  qed
qed

lemma py_in_set: "py_in w t \<Longrightarrow> set w \<subseteq> set t"
proof (induction t)
  case Nil
  then show ?case by simp
next
  case (Cons x xs)
  from Cons.prems have "take (length w) (x # xs) = w \<or> py_in w xs" by simp
  then show ?case
  proof
    assume "take (length w) (x # xs) = w"
    then have "set w = set (take (length w) (x # xs))" by simp
    then show ?thesis using set_take_subset [of "length w" "x # xs"] by blast
  next
    assume "py_in w xs"
    then show ?thesis using Cons.IH by auto
  qed
qed

lemma endswith_length: "endswith t w \<Longrightarrow> length w \<le> length t"
  by (simp add: endswith_def)

lemma startswith_length: "startswith t w \<Longrightarrow> length w \<le> length t"
  by (metis startswith_def length_take min.cobounded1)

termination convert_type
proof (relation "measure (\<lambda>(self, ts, opt). length ts)", goal_cases)
  case 1
  show ?case by simp
next
  case (2 self ts_type optional t)
  have "2 \<le> length t" using endswith_length [OF 2(3)] by simp
  then have "length (take (length t - 2) t) < length t" by simp
  then have "length (strip (take (length t - 2) t)) < length t"
    using length_strip [of "take (length t - 2) t"] by simp
  then show ?case using length_norm_type [of ts_type] 2(1) by simp
next
  case (3 self ts_type optional t)
  then have "startswith t ''Array<''" by simp
  from startswith_length [OF this] have "6 \<le> length t" by simp
  then have "length (drop 6 (take (length t - 1) t)) < length t" by simp
  then have "length (strip (drop 6 (take (length t - 1) t))) < length t"
    using length_strip [of "drop 6 (take (length t - 1) t)"] by simp
  then show ?case using length_norm_type [of ts_type] 3(1) by simp
next
  case (4 self ts_type optional t v)
  then have "length v < length t" by (simp add: record_value_type_shorter)
  then show ?case using length_norm_type [of ts_type] 4(1) by simp
next
  case (5 self ts_type optional t u)
  from 5 have "py_in '' | '' t" by simp
  from py_in_set [OF this] have bar: "CHR ''|'' \<in> set t" by simp
  from 5 obtain u' where "u' \<in> set (split_on CHR ''|'' t)" "u = strip u'" by auto
  then have "length u < length t"
    using split_on_shorter [OF bar, of u'] length_strip [of u'] by simp
  then show ?case using length_norm_type [of ts_type] 5(1) by simp
qed


declare convert_type.simps [simp del]


section \<open>Evaluation on concrete inputs\<close>

text \<open>
  The equation of \<^verbatim>\<open>convert_type\<close> with the comprehension folded, so that the
  simplifier can run the function on a given text.
\<close>

lemma convert_all_Nil: "convert_all self [] = []"
  by (simp add: convert_all_def)

lemma convert_all_Cons: "convert_all self (u # us) = convert_type self u False # convert_all self us"
  by (simp add: convert_all_def)

lemma convert_type_unfold:
  "convert_type self ts_type optional =
     (let t = norm_type ts_type;
          zod =
            (case map_of TYPE_MAP t of
               Some z \<Rightarrow> z
             | None \<Rightarrow>
                 if endswith t ''[]'' then
                   ''z.array('' @ convert_type self (strip (take (length t - 2) t)) False @ '')''
                 else if startswith t ''Array<'' \<and> endswith t ''>'' then
                   ''z.array('' @
                     convert_type self (strip (drop 6 (take (length t - 1) t))) False @ '')''
                 else if startswith t ''Record<'' then
                   (case record_value_type t of
                      Some value_type \<Rightarrow>
                        ''z.record('' @ convert_type self value_type False @ '')''
                    | None \<Rightarrow> ''z.record(z.any())'')
                 else if py_in '' | '' t then
                   ''z.union(['' @
                     join '', '' (convert_all self (map strip (split_on CHR ''|'' t)))
                     @ ''])''
                 else if startswith t [SQ] \<or> startswith t [DQ] then
                   ''z.literal('' @ t @ '')''
                 else if has_key t (interfaces self) \<or> has_key t (types self)
                         \<or> has_key t (enums self) then
                   t @ ''Schema''
                 else
                   ''z.any() /* TODO: define schema for '' @ t @ '' */'')
      in if norm_optional ts_type optional then zod @ ''.optional()'' else zod)"
  unfolding convert_all_def by (rule convert_type.simps)

lemmas text_simps = strip_def lstrip_def rstrip_def rstrip_char_def endswith_def startswith_def
  is_space_def is_word_def not_newline_def any_char_def not_char_def is_quote_def

lemmas rx_simps = match_at_def re_match_def re_search_def re_finditer_def re_sub_empty_def
  group_def group_text_def undefined_null_rx_def record_rx_def interface_name_rx_def
  field_pattern_def body_rx_def type_alias_rx_def enum_name_rx_def value_pattern_def
  interface_pattern_def type_pattern_def enum_pattern_def

lemmas convert_simps = convert_type_unfold convert_all_Nil convert_all_Cons norm_type_def
  norm_optional_def strip_question_def has_absent_branch_def TYPE_MAP_def record_value_type_def
  has_key_def new_converter_def optional_suffix_def matched_by_rule_def

lemmas file_simps = parse_interface_def parse_type_alias_def parse_enum_def field_of_match_def
  value_of_match_def field_line_def interface_to_zod_def type_alias_to_zod_def enum_to_zod_def
  register_interface_def register_type_def register_enum_def populate_def header_lines_def
  convert_file_def convert_file_output_def parsed_interfaces_def parsed_types_def
  parsed_enums_def enum_block_def type_block_def interface_fields_def interface_block_def
  dict_of_def one_pair_per_declaration_def



section \<open>Lemmas about texts, rules and registries\<close>

subsection \<open>Texts\<close>

lemma rstrip_Cons:
  "rstrip (x # xs) = (if rstrip xs = [] \<and> is_space x then [] else x # rstrip xs)"
proof (cases "\<forall>y \<in> set xs. is_space y")
  case True
  then have "dropWhile is_space (rev xs @ [x]) = dropWhile is_space [x]"
    by (intro dropWhile_append2) simp
  moreover from True have "dropWhile is_space (rev xs) = []" by simp
  ultimately show ?thesis by (simp add: rstrip_def)
next
  case False
  then obtain y where y: "y \<in> set (rev xs)" "\<not> is_space y" by auto
  then have "dropWhile is_space (rev xs @ [x]) = dropWhile is_space (rev xs) @ [x]"
    by (rule dropWhile_append1)
  moreover from y have "dropWhile is_space (rev xs) \<noteq> []" by auto
  ultimately show ?thesis by (simp add: rstrip_def)
qed

lemma rstrip_Nil: "rstrip [] = []"
  by (simp add: rstrip_def)

lemma strip_id: "s \<noteq> [] \<Longrightarrow> \<not> is_space (hd s) \<Longrightarrow> \<not> is_space (last s) \<Longrightarrow> strip s = s"
proof -
  assume s: "s \<noteq> []" and h: "\<not> is_space (hd s)" and l: "\<not> is_space (last s)"
  from s h have "lstrip s = s" by (cases s) (simp_all add: lstrip_def)
  moreover from s l have "dropWhile is_space (rev s) = rev s"
    by (cases s rule: rev_cases) simp_all
  then have "rstrip s = s" by (simp add: rstrip_def)
  ultimately show ?thesis by (simp add: strip_def)
qed

lemma rstrip_hd: "rstrip s \<noteq> [] \<Longrightarrow> hd (rstrip s) = hd s"
  by (cases s) (auto simp: rstrip_Nil rstrip_Cons split: if_splits)

lemma rstrip_last: "rstrip s \<noteq> [] \<Longrightarrow> \<not> is_space (last (rstrip s))"
proof -
  assume "rstrip s \<noteq> []"
  then have ne: "dropWhile is_space (rev s) \<noteq> []" by (simp add: rstrip_def)
  then have "\<not> is_space (hd (dropWhile is_space (rev s)))" by (rule hd_dropWhile)
  with ne show ?thesis by (simp add: rstrip_def last_rev)
qed

lemma strip_hd: "strip s \<noteq> [] \<Longrightarrow> \<not> is_space (hd (strip s))"
proof -
  assume ne: "strip s \<noteq> []"
  then have "lstrip s \<noteq> []" by (auto simp: strip_def rstrip_Nil)
  then have "\<not> is_space (hd (lstrip s))" unfolding lstrip_def by (rule hd_dropWhile)
  with ne show ?thesis by (simp add: strip_def rstrip_hd)
qed

lemma strip_last: "strip s \<noteq> [] \<Longrightarrow> \<not> is_space (last (strip s))"
  by (simp add: strip_def rstrip_last)

lemma strip_strip: "strip (strip s) = strip s"
proof (cases "strip s = []")
  case True
  have "strip [] = []" by (simp add: strip_def lstrip_def rstrip_def)
  with True show ?thesis by simp
next
  case False
  then show ?thesis by (intro strip_id strip_hd strip_last)
qed

lemma startswith_set: "startswith s w \<Longrightarrow> set w \<subseteq> set s"
  unfolding startswith_def by (metis set_take_subset)

lemma endswith_set: "endswith s w \<Longrightarrow> set w \<subseteq> set s"
  unfolding endswith_def by (metis set_drop_subset)

lemma endswith_last: "endswith s w \<Longrightarrow> w \<noteq> [] \<Longrightarrow> last s = last w"
  unfolding endswith_def by (metis last_drop drop_eq_Nil not_le)


subsection \<open>The rules of convert_type\<close>

lemma convert_type_cases:
  "convert_type self ts opt =
     (case map_of TYPE_MAP (norm_type ts) of
        Some z \<Rightarrow> z
      | None \<Rightarrow>
          if endswith (norm_type ts) ''[]'' then
            ''z.array('' @
              convert_type self (strip (take (length (norm_type ts) - 2) (norm_type ts))) False @ '')''
          else if startswith (norm_type ts) ''Array<'' \<and> endswith (norm_type ts) ''>'' then
            ''z.array('' @
              convert_type self
                (strip (drop 6 (take (length (norm_type ts) - 1) (norm_type ts)))) False @ '')''
          else if startswith (norm_type ts) ''Record<'' then
            (case record_value_type (norm_type ts) of
               Some value_type \<Rightarrow> ''z.record('' @ convert_type self value_type False @ '')''
             | None \<Rightarrow> ''z.record(z.any())'')
          else if py_in '' | '' (norm_type ts) then
            ''z.union(['' @
              join '', '' (convert_all self (map strip (split_on CHR ''|'' (norm_type ts)))) @ ''])''
          else if startswith (norm_type ts) [SQ] \<or> startswith (norm_type ts) [DQ] then
            ''z.literal('' @ norm_type ts @ '')''
          else if has_key (norm_type ts) (interfaces self) \<or> has_key (norm_type ts) (types self)
                  \<or> has_key (norm_type ts) (enums self) then
            norm_type ts @ ''Schema''
          else
            ''z.any() /* TODO: define schema for '' @ norm_type ts @ '' */'')
     @ optional_suffix (norm_optional ts opt)"
  by (subst convert_type_unfold) (simp add: Let_def optional_suffix_def)

lemma convert_type_primitive:
  "map_of TYPE_MAP (norm_type ts) = Some z \<Longrightarrow>
   convert_type self ts opt = z @ optional_suffix (norm_optional ts opt)"
  by (subst convert_type_cases) simp

lemma convert_type_array_suffix:
  "map_of TYPE_MAP (norm_type ts) = None \<Longrightarrow> endswith (norm_type ts) ''[]'' \<Longrightarrow>
   convert_type self ts opt =
     ''z.array('' @
       convert_type self (strip (take (length (norm_type ts) - 2) (norm_type ts))) False @ '')'' @
     optional_suffix (norm_optional ts opt)"
  by (subst convert_type_cases) simp

lemma convert_type_array_generic:
  "map_of TYPE_MAP (norm_type ts) = None \<Longrightarrow> \<not> endswith (norm_type ts) ''[]'' \<Longrightarrow>
   startswith (norm_type ts) ''Array<'' \<Longrightarrow> endswith (norm_type ts) ''>'' \<Longrightarrow>
   convert_type self ts opt =
     ''z.array('' @
       convert_type self
         (strip (drop 6 (take (length (norm_type ts) - 1) (norm_type ts)))) False @ '')'' @
     optional_suffix (norm_optional ts opt)"
  by (subst convert_type_cases) simp

lemma convert_type_record:
  "map_of TYPE_MAP (norm_type ts) = None \<Longrightarrow> \<not> endswith (norm_type ts) ''[]'' \<Longrightarrow>
   \<not> (startswith (norm_type ts) ''Array<'' \<and> endswith (norm_type ts) ''>'') \<Longrightarrow>
   startswith (norm_type ts) ''Record<'' \<Longrightarrow>
   convert_type self ts opt =
     (case record_value_type (norm_type ts) of
        Some value_type \<Rightarrow> ''z.record('' @ convert_type self value_type False @ '')''
      | None \<Rightarrow> ''z.record(z.any())'') @
     optional_suffix (norm_optional ts opt)"
  by (subst convert_type_cases) auto

lemma convert_type_union:
  "map_of TYPE_MAP (norm_type ts) = None \<Longrightarrow> \<not> endswith (norm_type ts) ''[]'' \<Longrightarrow>
   \<not> (startswith (norm_type ts) ''Array<'' \<and> endswith (norm_type ts) ''>'') \<Longrightarrow>
   \<not> startswith (norm_type ts) ''Record<'' \<Longrightarrow> py_in '' | '' (norm_type ts) \<Longrightarrow>
   convert_type self ts opt =
     ''z.union(['' @
       join '', '' (convert_all self (map strip (split_on CHR ''|'' (norm_type ts)))) @ ''])'' @
     optional_suffix (norm_optional ts opt)"
  by (subst convert_type_cases) auto

lemma convert_type_reference:
  "map_of TYPE_MAP (norm_type ts) = None \<Longrightarrow> \<not> endswith (norm_type ts) ''[]'' \<Longrightarrow>
   \<not> (startswith (norm_type ts) ''Array<'' \<and> endswith (norm_type ts) ''>'') \<Longrightarrow>
   \<not> startswith (norm_type ts) ''Record<'' \<Longrightarrow> \<not> py_in '' | '' (norm_type ts) \<Longrightarrow>
   \<not> startswith (norm_type ts) [SQ] \<Longrightarrow> \<not> startswith (norm_type ts) [DQ] \<Longrightarrow>
   has_key (norm_type ts) (interfaces self) \<or> has_key (norm_type ts) (types self)
     \<or> has_key (norm_type ts) (enums self) \<Longrightarrow>
   convert_type self ts opt =
     norm_type ts @ ''Schema'' @ optional_suffix (norm_optional ts opt)"
  by (subst convert_type_cases) auto

lemma convert_type_fallback:
  "\<not> matched_by_rule self (norm_type ts) \<Longrightarrow>
   convert_type self ts opt =
     ''z.any() /* TODO: define schema for '' @ norm_type ts @ '' */'' @
     optional_suffix (norm_optional ts opt)"
  by (subst convert_type_cases) (auto simp: matched_by_rule_def)

lemma norm_type_strip: "norm_type (strip ts) = norm_type ts"
  by (simp add: norm_type_def strip_strip)

lemma norm_optional_strip: "norm_optional (strip ts) opt = norm_optional ts opt"
  by (simp add: norm_optional_def strip_strip)

lemma convert_type_strip: "convert_type self (strip ts) opt = convert_type self ts opt"
  by (subst convert_type_cases, subst convert_type_cases [of self ts opt],
      unfold norm_type_strip norm_optional_strip, rule refl)

subsection \<open>The registries\<close>

lemma dict_set_subset: "set (dict_set k v d) \<subseteq> insert (k, v) (set d)"
  by (induction k v d rule: dict_set.induct) auto

lemma dict_set_keys: "set (map fst (dict_set k v d)) = insert k (set (map fst d))"
  by (induction k v d rule: dict_set.induct) auto

lemma dict_set_distinct: "distinct (map fst d) \<Longrightarrow> distinct (map fst (dict_set k v d))"
proof (induction d)
  case Nil
  then show ?case by simp
next
  case (Cons kv d)
  obtain k' v' where kv: "kv = (k', v')" by (cases kv)
  show ?case
  proof (cases "k' = k")
    case True
    with Cons.prems kv show ?thesis by simp
  next
    case False
    from Cons have "distinct (map fst (dict_set k v d))" by simp
    moreover from Cons.prems kv have "k' \<notin> set (map fst d)" by simp
    with False have "k' \<notin> set (map fst (dict_set k v d))" by (simp only: dict_set_keys) simp
    ultimately show ?thesis using kv False by simp
  qed
qed

lemma dict_of_snoc: "dict_of (kvs @ [kv]) = dict_set (fst kv) (snd kv) (dict_of kvs)"
  by (simp add: dict_of_def)

lemma dict_of_keys: "set (map fst (dict_of kvs)) = set (map fst kvs)"
proof (induction kvs rule: rev_induct)
  case Nil
  then show ?case by (simp add: dict_of_def)
next
  case (snoc kv kvs)
  have "set (map fst (dict_of (kvs @ [kv]))) = insert (fst kv) (set (map fst (dict_of kvs)))"
    by (simp only: dict_of_snoc dict_set_keys)
  with snoc show ?case by simp
qed

lemma dict_of_distinct: "distinct (map fst (dict_of kvs))"
proof (induction kvs rule: rev_induct)
  case Nil
  then show ?case by (simp add: dict_of_def)
next
  case (snoc kv kvs)
  then show ?case by (simp only: dict_of_snoc dict_set_distinct)
qed

lemma dict_of_subset: "set (dict_of kvs) \<subseteq> set kvs"
proof (induction kvs rule: rev_induct)
  case Nil
  then show ?case by (simp add: dict_of_def)
next
  case (snoc kv kvs)
  have "set (dict_of (kvs @ [kv])) \<subseteq> insert kv (set (dict_of kvs))"
    using dict_set_subset [of "fst kv" "snd kv" "dict_of kvs"] by (simp add: dict_of_snoc)
  with snoc show ?case by auto
qed

subsection \<open>Filling the registries\<close>

lemma foldl_register_interface:
  "foldl register_interface self ms =
     self\<lparr>interfaces :=
       foldl (\<lambda>d kv. dict_set (fst kv) (snd kv) d) (interfaces self)
         (concat (map (\<lambda>m. case parse_interface (fst m) of
                         Inr (name, fieldlist) \<Rightarrow> [(name, fst m)] | Inl e \<Rightarrow> []) ms))\<rparr>"
proof (induction ms arbitrary: self)
  case Nil
  then show ?case by simp
next
  case (Cons m ms)
  show ?case
  proof (cases "parse_interface (fst m)")
    case (Inl e)
    then have "register_interface self m = self" by (simp add: register_interface_def)
    with Cons Inl show ?thesis by simp
  next
    case (Inr r)
    obtain name fieldlist where r: "r = (name, fieldlist)" by (cases r)
    with Inr have "register_interface self m =
        self\<lparr>interfaces := dict_set name (fst m) (interfaces self)\<rparr>"
      by (simp add: register_interface_def)
    with Cons Inr r show ?thesis by simp
  qed
qed

lemma foldl_register_type:
  "foldl register_type self ms =
     self\<lparr>types :=
       foldl (\<lambda>d kv. dict_set (fst kv) (snd kv) d) (types self)
         (concat (map (\<lambda>m. case parse_type_alias (fst m) of
                         Inr (name, type_def) \<Rightarrow> [(name, type_def)] | Inl e \<Rightarrow> []) ms))\<rparr>"
proof (induction ms arbitrary: self)
  case Nil
  then show ?case by simp
next
  case (Cons m ms)
  show ?case
  proof (cases "parse_type_alias (fst m)")
    case (Inl e)
    then have "register_type self m = self" by (simp add: register_type_def)
    with Cons Inl show ?thesis by simp
  next
    case (Inr r)
    obtain name type_def where r: "r = (name, type_def)" by (cases r)
    with Inr have "register_type self m = self\<lparr>types := dict_set name type_def (types self)\<rparr>"
      by (simp add: register_type_def)
    with Cons Inr r show ?thesis by simp
  qed
qed

lemma foldl_register_enum:
  "foldl register_enum self ms =
     self\<lparr>enums :=
       foldl (\<lambda>d kv. dict_set (fst kv) (snd kv) d) (enums self)
         (concat (map (\<lambda>m. case parse_enum (fst m) of
                         Inr (name, values) \<Rightarrow> [(name, values)] | Inl e \<Rightarrow> []) ms))\<rparr>"
proof (induction ms arbitrary: self)
  case Nil
  then show ?case by simp
next
  case (Cons m ms)
  show ?case
  proof (cases "parse_enum (fst m)")
    case (Inl e)
    then have "register_enum self m = self" by (simp add: register_enum_def)
    with Cons Inl show ?thesis by simp
  next
    case (Inr r)
    obtain name vals where r: "r = (name, vals)" by (cases r)
    with Inr have "register_enum self m = self\<lparr>enums := dict_set name vals (enums self)\<rparr>"
      by (simp add: register_enum_def)
    with Cons Inr r show ?thesis by simp
  qed
qed

lemma populate_new:
  "populate new_converter input_content =
     \<lparr>interfaces = dict_of (parsed_interfaces input_content),
      types = dict_of (parsed_types input_content),
      enums = dict_of (parsed_enums input_content)\<rparr>"
  by (simp add: populate_def Let_def foldl_register_interface foldl_register_type
      foldl_register_enum new_converter_def dict_of_def parsed_interfaces_def parsed_types_def
      parsed_enums_def)

lemma in_concat_mapE:
  assumes "x \<in> set (concat (map f ms))"
  obtains m where "m \<in> set ms" and "x \<in> set (f m)"
  using assms by auto

lemma parsed_interfaces_parse:
  assumes "(n, s) \<in> set (parsed_interfaces input_content)"
  shows "\<exists>f. parse_interface s = Inr (n, f)"
  using assms [unfolded parsed_interfaces_def]
proof (rule in_concat_mapE)
  fix m
  assume m: "(n, s) \<in> set (case parse_interface (fst m) of
      Inr (name, fieldlist) \<Rightarrow> [(name, fst m)] | Inl e \<Rightarrow> [])"
  show ?thesis
  proof (cases "parse_interface (fst m)")
    case (Inl e)
    with m show ?thesis by simp
  next
    case (Inr r)
    obtain name fieldlist where "r = (name, fieldlist)" by (cases r)
    with m Inr show ?thesis by simp
  qed
qed

lemma populate_interfaces_parse:
  "(n, s) \<in> set (interfaces (populate new_converter input_content)) \<Longrightarrow>
   \<exists>f. parse_interface s = Inr (n, f)"
  using dict_of_subset [of "parsed_interfaces input_content"] parsed_interfaces_parse
  by (auto simp: populate_new)

subsection \<open>Emitting\<close>

lemma emit_enums_eq: "emit_enums out d = out @ concat (map enum_block d)"
  by (induction out d rule: emit_enums.induct) (simp_all add: enum_block_def)

lemma emit_types_eq: "emit_types self out d = out @ concat (map (type_block self) d)"
  by (induction self out d rule: emit_types.induct) (simp_all add: type_block_def)

lemma emit_interfaces_eq:
  "(\<And>n s. (n, s) \<in> set d \<Longrightarrow> \<exists>n' f. parse_interface s = Inr (n', f)) \<Longrightarrow>
   emit_interfaces self out d = Inr (out @ concat (map (interface_block self) d))"
proof (induction self out d rule: emit_interfaces.induct)
  case (1 self out)
  then show ?case by simp
next
  case (2 self out name interface_str rest)
  from "2.prems" [of name interface_str] obtain n' f where p: "parse_interface interface_str = Inr (n', f)"
    by auto
  have "emit_interfaces self (out @ [interface_to_zod self name f] @ [[]]) rest =
      Inr ((out @ [interface_to_zod self name f] @ [[]]) @ concat (map (interface_block self) rest))"
    using "2.prems" by (intro "2.IH" [OF p refl]) auto
  moreover from p have "interface_block self (name, interface_str) = [interface_to_zod self name f, []]"
    by (simp add: interface_block_def interface_fields_def)
  ultimately show ?case using p by simp
qed

lemma convert_file_eq:
  "convert_file new_converter input_content =
     Inr (join [NL]
            (header_lines @
             concat (map enum_block (enums (populate new_converter input_content))) @
             concat (map (type_block (populate new_converter input_content))
                       (types (populate new_converter input_content))) @
             concat (map (interface_block (populate new_converter input_content))
                       (interfaces (populate new_converter input_content)))),
          populate new_converter input_content)"
proof -
  let ?c = "populate new_converter input_content"
  have "emit_interfaces ?c (emit_types ?c (emit_enums header_lines (enums ?c)) (types ?c))
          (interfaces ?c) =
        Inr (emit_types ?c (emit_enums header_lines (enums ?c)) (types ?c) @
             concat (map (interface_block ?c) (interfaces ?c)))"
    by (rule emit_interfaces_eq) (blast dest: populate_interfaces_parse)
  then show ?thesis
    by (simp add: convert_file_def Let_def emit_enums_eq emit_types_eq)
qed

subsection \<open>Identifiers\<close>

lemma is_word_not_space: "is_word c \<Longrightarrow> \<not> is_space c"
  by (auto simp: is_word_def is_space_def Let_def)

lemma not_word_chars:
  "\<not> is_word CHR '' ''" "\<not> is_word CHR ''?''" "\<not> is_word CHR '']''" "\<not> is_word CHR ''<''"
  "\<not> is_word CHR ''>''" "\<not> is_word CHR ''|''" "\<not> is_word SQ" "\<not> is_word DQ"
  "\<not> is_word CHR ''=''" "\<not> is_word CHR ''{''" "\<not> is_word CHR ''}''" "\<not> is_word CHR '';''"
  "\<not> is_word CHR '',''"
  by (simp_all add: is_word_def)

lemma identifier_strip: "is_identifier w \<Longrightarrow> strip w = w"
proof -
  assume w: "is_identifier w"
  then have "w \<noteq> []" "is_word (hd w)" "is_word (last w)" by (simp_all add: is_identifier_def)
  then show ?thesis by (intro strip_id) (simp_all add: is_word_not_space)
qed

lemma identifier_no_char: "is_identifier w \<Longrightarrow> \<not> is_word c \<Longrightarrow> c \<notin> set w"
  by (auto simp: is_identifier_def)

lemma identifier_not_endswith:
  "is_identifier w \<Longrightarrow> v \<noteq> [] \<Longrightarrow> \<not> is_word (last v) \<Longrightarrow> \<not> endswith w v"
proof
  assume w: "is_identifier w" and v: "v \<noteq> []" "\<not> is_word (last v)" and e: "endswith w v"
  from e v have "last w = last v" by (simp add: endswith_last)
  moreover from w have "is_word (last w)" by (simp add: is_identifier_def)
  ultimately show False using v by simp
qed

lemma identifier_not_startswith:
  "is_identifier w \<Longrightarrow> c \<in> set v \<Longrightarrow> \<not> is_word c \<Longrightarrow> \<not> startswith w v"
  using startswith_set [of w v] by (auto simp: is_identifier_def)

lemma identifier_not_py_in:
  "is_identifier w \<Longrightarrow> c \<in> set v \<Longrightarrow> \<not> is_word c \<Longrightarrow> \<not> py_in v w"
  using py_in_set [of v w] by (auto simp: is_identifier_def)

lemma identifier_norm_type: "is_identifier w \<Longrightarrow> norm_type w = w"
proof -
  assume w: "is_identifier w"
  have q: "\<not> endswith w ''?''"
    using w by (rule identifier_not_endswith) (simp_all add: not_word_chars)
  have "\<not> py_in '' | undefined'' w" "\<not> py_in '' | null'' w"
    using w by (rule identifier_not_py_in [where c = "CHR '' ''"]; simp add: not_word_chars)+
  with q show ?thesis
    by (simp add: norm_type_def identifier_strip [OF w] strip_question_def has_absent_branch_def)
qed

lemma identifier_norm_optional: "is_identifier w \<Longrightarrow> norm_optional w opt = opt"
proof -
  assume w: "is_identifier w"
  have q: "\<not> endswith w ''?''"
    using w by (rule identifier_not_endswith) (simp_all add: not_word_chars)
  have "\<not> py_in '' | undefined'' w" "\<not> py_in '' | null'' w"
    using w by (rule identifier_not_py_in [where c = "CHR '' ''"]; simp add: not_word_chars)+
  with q show ?thesis
    by (simp add: norm_optional_def identifier_strip [OF w] strip_question_def has_absent_branch_def)
qed

lemma identifier_reference:
  assumes w: "is_identifier w" and prim: "map_of TYPE_MAP w = None"
    and key: "has_key w (interfaces self) \<or> has_key w (types self) \<or> has_key w (enums self)"
  shows "convert_type self w opt = w @ ''Schema'' @ optional_suffix opt"
proof -
  have n: "norm_type w = w" and o: "norm_optional w opt = opt"
    using w by (simp_all add: identifier_norm_type identifier_norm_optional)
  have 1: "\<not> endswith w ''[]''"
    using w by (rule identifier_not_endswith) (simp_all add: not_word_chars)
  have 2: "\<not> startswith w ''Array<''" "\<not> startswith w ''Record<''"
    using w by (rule identifier_not_startswith [where c = "CHR ''<''"]; simp add: not_word_chars)+
  have 3: "\<not> py_in '' | '' w"
    using w by (rule identifier_not_py_in [where c = "CHR '' ''"]; simp add: not_word_chars)
  have 4: "\<not> startswith w [SQ]"
    using w by (rule identifier_not_startswith [where c = SQ]) (simp_all add: not_word_chars)
  have 5: "\<not> startswith w [DQ]"
    using w by (rule identifier_not_startswith [where c = DQ]) (simp_all add: not_word_chars)
  show ?thesis
    using convert_type_reference [of w self opt] prim key 1 2 3 4 5 by (simp add: n o)
qed

subsection \<open>Splitting\<close>

lemma join_Cons: "ws \<noteq> [] \<Longrightarrow> join sep (w # ws) = w @ sep @ join sep ws"
  by (cases ws) simp_all

lemma join_split_on: "join [c] (split_on c s) = s"
proof (induction s)
  case Nil
  then show ?case by simp
next
  case (Cons x xs)
  have ne: "split_on c xs \<noteq> []" by (rule split_on_nonempty)
  show ?case
  proof (cases "x = c")
    case True
    with Cons ne show ?thesis by (simp add: join_Cons)
  next
    case False
    obtain w ws where ws: "split_on c xs = w # ws" using ne by (cases "split_on c xs") auto
    with Cons have "join [c] (w # ws) = xs" by simp
    then have "join [c] ((x # w) # ws) = x # xs" by (cases ws) simp_all
    with False ws show ?thesis by simp
  qed
qed

lemma split_on_no_sep: "u \<in> set (split_on c s) \<Longrightarrow> c \<notin> set u"
proof (induction s arbitrary: u)
  case Nil
  then show ?case by simp
next
  case (Cons x xs)
  have ne: "split_on c xs \<noteq> []" by (rule split_on_nonempty)
  then obtain w ws where ws: "split_on c xs = w # ws" by (cases "split_on c xs") auto
  show ?case
  proof (cases "x = c")
    case True
    with Cons.prems have "u = [] \<or> u \<in> set (split_on c xs)" by simp
    then show ?thesis using Cons.IH by auto
  next
    case False
    with Cons.prems ws have "u = x # w \<or> u \<in> set ws" by simp
    then show ?thesis
    proof
      assume "u = x # w"
      moreover have "c \<notin> set w" using Cons.IH [of w] ws by simp
      ultimately show ?thesis using False by simp
    next
      assume "u \<in> set ws"
      then show ?thesis using Cons.IH [of u] ws by simp
    qed
  qed
qed

section \<open>Lemmas about the matcher\<close>

lemma last_char_append: "last_char p (xs @ ys) = last_char (last_char p xs) ys"
  by (induction xs arbitrary: p) simp_all

lemma takeWhile_run:
  "\<forall>x \<in> set xs. c x \<Longrightarrow> ys = [] \<or> \<not> c (hd ys) \<Longrightarrow> takeWhile c (xs @ ys) = xs"
  by (cases ys) (simp_all add: takeWhile_append2)

lemma dropWhile_run:
  "\<forall>x \<in> set xs. c x \<Longrightarrow> ys = [] \<or> \<not> c (hd ys) \<Longrightarrow> dropWhile c (xs @ ys) = ys"
  by (cases ys) (simp_all add: dropWhile_append2)

lemma rep_greedy_max:
  "n \<le> length (takeWhile c s) \<Longrightarrow>
   k (last_char p (takeWhile c s), dropWhile c s, g) = Some r \<Longrightarrow>
   rep_greedy c n k p s g = Some r"
proof (induction s arbitrary: n p)
  case Nil
  then show ?case by simp
next
  case (Cons x xs)
  show ?case
  proof (cases "c x")
    case True
    with Cons.prems have "n - 1 \<le> length (takeWhile c xs)"
      and "k (last_char (Some x) (takeWhile c xs), dropWhile c xs, g) = Some r"
      by simp_all
    then have "rep_greedy c (n - 1) k (Some x) xs g = Some r" by (rule Cons.IH)
    with True show ?thesis by simp
  next
    case False
    with Cons.prems show ?thesis by simp
  qed
qed

lemma rep_greedy_run:
  assumes "\<forall>x \<in> set xs. c x" and "ys = [] \<or> \<not> c (hd ys)" and "n \<le> length xs"
    and "k (last_char p xs, ys, g) = Some r"
  shows "rep_greedy c n k p (xs @ ys) g = Some r"
proof -
  have tw: "takeWhile c (xs @ ys) = xs" and dw: "dropWhile c (xs @ ys) = ys"
    using assms(1,2) by (rule takeWhile_run, rule dropWhile_run)
  show ?thesis
    by (rule rep_greedy_max) (simp_all only: tw dw assms)
qed

lemma rep_greedy_fail:
  "(\<And>i. n \<le> i \<Longrightarrow> i \<le> length (takeWhile c s) \<Longrightarrow>
      k (last_char p (take i s), drop i s, g) = None) \<Longrightarrow>
   rep_greedy c n k p s g = None"
proof (induction s arbitrary: n p)
  case Nil
  from Nil [of 0] show ?case by simp
next
  case (Cons x xs)
  show ?case
  proof (cases "c x")
    case True
    have "rep_greedy c (n - 1) k (Some x) xs g = None"
    proof (rule Cons.IH)
      fix i assume i: "n - 1 \<le> i" "i \<le> length (takeWhile c xs)"
      with True have "n \<le> Suc i" "Suc i \<le> length (takeWhile c (x # xs))" by simp_all
      from Cons.prems [OF this] show "k (last_char (Some x) (take i xs), drop i xs, g) = None"
        by simp
    qed
    moreover have "n = 0 \<Longrightarrow> k (p, x # xs, g) = None"
      using Cons.prems [of 0] by simp
    ultimately show ?thesis using True by simp
  next
    case False
    have "n = 0 \<Longrightarrow> k (p, x # xs, g) = None"
      using Cons.prems [of 0] by simp
    with False show ?thesis by simp
  qed
qed

lemma rep_lazy_first:
  "n \<le> m \<Longrightarrow> m \<le> length s \<Longrightarrow> \<forall>x \<in> set (take m s). c x \<Longrightarrow>
   (\<And>i. n \<le> i \<Longrightarrow> i < m \<Longrightarrow> k (last_char p (take i s), drop i s, g) = None) \<Longrightarrow>
   k (last_char p (take m s), drop m s, g) = Some r \<Longrightarrow>
   rep_lazy c n k p s g = Some r"
proof (induction s arbitrary: n m p)
  case Nil
  then show ?case by simp
next
  case (Cons x xs)
  show ?case
  proof (cases m)
    case 0
    with Cons.prems show ?thesis by simp
  next
    case (Suc m')
    with Cons.prems have cx: "c x" by simp
    have "rep_lazy c (n - 1) k (Some x) xs g = Some r"
    proof (rule Cons.IH [of "n - 1" m'])
      show "n - 1 \<le> m'" using Cons.prems(1) Suc by simp
      show "m' \<le> length xs" using Cons.prems(2) Suc by simp
      show "\<forall>x \<in> set (take m' xs). c x" using Cons.prems(3) Suc by simp
      show "k (last_char (Some x) (take m' xs), drop m' xs, g) = Some r"
        using Cons.prems(5) Suc by simp
    next
      fix i assume "n - 1 \<le> i" "i < m'"
      then have "n \<le> Suc i" "Suc i < m" using Suc by simp_all
      from Cons.prems(4) [OF this] show "k (last_char (Some x) (take i xs), drop i xs, g) = None"
        by simp
    qed
    moreover have "n = 0 \<Longrightarrow> k (p, x # xs, g) = None"
      using Cons.prems(4) [of 0] Suc by simp
    ultimately show ?thesis using cx by (cases "n = 0") simp_all
  qed
qed

lemma rep_lazy_fail:
  "(\<And>i. n \<le> i \<Longrightarrow> i \<le> length (takeWhile c s) \<Longrightarrow>
      k (last_char p (take i s), drop i s, g) = None) \<Longrightarrow>
   rep_lazy c n k p s g = None"
proof (induction s arbitrary: n p)
  case Nil
  from Nil [of 0] show ?case by simp
next
  case (Cons x xs)
  have k0: "n = 0 \<Longrightarrow> k (p, x # xs, g) = None"
    using Cons.prems [of 0] by simp
  show ?case
  proof (cases "c x")
    case True
    have "rep_lazy c (n - 1) k (Some x) xs g = None"
    proof (rule Cons.IH)
      fix i assume i: "n - 1 \<le> i" "i \<le> length (takeWhile c xs)"
      with True have "n \<le> Suc i" "Suc i \<le> length (takeWhile c (x # xs))" by simp_all
      from Cons.prems [OF this] show "k (last_char (Some x) (take i xs), drop i xs, g) = None"
        by simp
    qed
    with k0 True show ?thesis by (cases "n = 0") simp_all
  next
    case False
    with k0 show ?thesis by simp
  qed
qed

subsection \<open>Scanning\<close>

lemma search_from_hit: "match_at r p s = Some m \<Longrightarrow> search_from r p s = Some m"
  by (cases s) simp_all

lemma search_from_miss:
  "(\<And>i. i < length xs \<Longrightarrow> match_at r (last_char p (take i xs)) (drop i xs @ ys) = None) \<Longrightarrow>
   search_from r p (xs @ ys) = search_from r (last_char p xs) ys"
proof (induction xs arbitrary: p)
  case Nil
  then show ?case by simp
next
  case (Cons x xs)
  have "match_at r p (x # xs @ ys) = None" using Cons.prems [of 0] by simp
  moreover have "search_from r (Some x) (xs @ ys) = search_from r (last_char (Some x) xs) ys"
  proof (rule Cons.IH)
    fix i assume "i < length xs"
    then have "Suc i < length (x # xs)" by simp
    from Cons.prems [OF this]
    show "match_at r (last_char (Some x) (take i xs)) (drop i xs @ ys) = None" by simp
  qed
  ultimately show ?case by simp
qed

lemma finditer_from_skip:
  "finditer_from r p (xs @ ys) (length xs) = finditer_from r (last_char p xs) ys 0"
  by (induction xs arbitrary: p) simp_all

lemma finditer_from_hit:
  "match_at r p (xs @ ys) = Some (xs, g) \<Longrightarrow> xs \<noteq> [] \<Longrightarrow>
   finditer_from r p (xs @ ys) 0 = (xs, g) # finditer_from r (last_char p xs) ys 0"
proof -
  assume m: "match_at r p (xs @ ys) = Some (xs, g)" and ne: "xs \<noteq> []"
  then obtain x xs' where xs: "xs = x # xs'" by (cases xs) auto
  have "finditer_from r (Some x) (xs' @ ys) (length xs') =
      finditer_from r (last_char (Some x) xs') ys 0"
    by (rule finditer_from_skip)
  with m xs show ?thesis by simp
qed

lemma finditer_from_miss:
  "(\<And>i. i < length xs \<Longrightarrow> match_at r (last_char p (take i xs)) (drop i xs @ ys) = None) \<Longrightarrow>
   finditer_from r p (xs @ ys) 0 = finditer_from r (last_char p xs) ys 0"
proof (induction xs arbitrary: p)
  case Nil
  then show ?case by simp
next
  case (Cons x xs)
  have "match_at r p (x # xs @ ys) = None" using Cons.prems [of 0] by simp
  moreover have "finditer_from r (Some x) (xs @ ys) 0 = finditer_from r (last_char (Some x) xs) ys 0"
  proof (rule Cons.IH)
    fix i assume "i < length xs"
    then have "Suc i < length (x # xs)" by simp
    from Cons.prems [OF this]
    show "match_at r (last_char (Some x) (take i xs)) (drop i xs @ ys) = None" by simp
  qed
  ultimately show ?case by simp
qed

lemma sub_from_skip:
  "sub_from r p (xs @ ys) (length xs) = sub_from r (last_char p xs) ys 0"
  by (induction xs arbitrary: p) simp_all

lemma sub_from_hit:
  "match_at r p (xs @ ys) = Some (xs, g) \<Longrightarrow> xs \<noteq> [] \<Longrightarrow>
   sub_from r p (xs @ ys) 0 = sub_from r (last_char p xs) ys 0"
proof -
  assume m: "match_at r p (xs @ ys) = Some (xs, g)" and ne: "xs \<noteq> []"
  then obtain x xs' where xs: "xs = x # xs'" by (cases xs) auto
  have "sub_from r (Some x) (xs' @ ys) (length xs') = sub_from r (last_char (Some x) xs') ys 0"
    by (rule sub_from_skip)
  with m xs show ?thesis by simp
qed

lemma sub_from_miss:
  "(\<And>i. i < length xs \<Longrightarrow> match_at r (last_char p (take i xs)) (drop i xs @ ys) = None) \<Longrightarrow>
   sub_from r p (xs @ ys) 0 = xs @ sub_from r (last_char p xs) ys 0"
proof (induction xs arbitrary: p)
  case Nil
  then show ?case by simp
next
  case (Cons x xs)
  have "match_at r p (x # xs @ ys) = None" using Cons.prems [of 0] by simp
  moreover have "sub_from r (Some x) (xs @ ys) 0 = xs @ sub_from r (last_char (Some x) xs) ys 0"
  proof (rule Cons.IH)
    fix i assume "i < length xs"
    then have "Suc i < length (x # xs)" by simp
    from Cons.prems [OF this]
    show "match_at r (last_char (Some x) (take i xs)) (drop i xs @ ys) = None" by simp
  qed
  ultimately show ?case by simp
qed

lemma last_char_cases: "last_char p xs = (if xs = [] then p else Some (last xs))"
  by (induction xs arbitrary: p) simp_all

lemma takeWhile_short:
  assumes "xs \<noteq> []" and "\<not> P (last xs)"
  shows "length (takeWhile P (xs @ ys)) < length xs"
proof -
  from assms have ex: "last xs \<in> set xs" "\<not> P (last xs)" by simp_all
  then have "takeWhile P (xs @ ys) = takeWhile P xs" by (rule takeWhile_append1)
  moreover have "length (takeWhile P xs) \<noteq> length xs"
  proof
    assume "length (takeWhile P xs) = length xs"
    then have "takeWhile P xs = xs"
      by (metis takeWhile_eq_take take_all order_refl)
    then have "\<forall>x \<in> set xs. P x" by (simp add: takeWhile_eq_all_conv)
    with ex show False by blast
  qed
  moreover have "length (takeWhile P xs) \<le> length xs" by (rule length_takeWhile_le)
  ultimately show ?thesis by simp
qed

lemma match_at_run:
  assumes "\<And>(k :: mstate \<Rightarrow> match option) m'.
    (\<And>p'. k (p', rest, g') = Some m') \<Longrightarrow> rx_match r k (p, pre @ rest, []) = Some m'"
  shows "match_at r p (pre @ rest) = Some (pre, g')"
  unfolding match_at_def
  by (rule assms [of "\<lambda>(p', s', g'). Some (take (length (pre @ rest) - length s') (pre @ rest), g')"
        "(pre, g')"]) simp

text \<open>
  A lazy group, optional blanks and a delimiter: the group takes the text up to the blanks
  before the first delimiter, if the text has no delimiter of its own and does not end in
  a blank. \<open>kd\<close> is the rest of the pattern, which starts with the delimiter.
\<close>

lemma lazy_group_then_spaces:
  assumes b: "b \<noteq> []" "\<not> is_space (last b)" "\<forall>x \<in> set b. c x" "d \<notin> set b"
    and w: "\<forall>x \<in> set w. is_space x" and d: "\<not> is_space d"
    and fail: "\<And>p' s' g'. s' = [] \<or> hd s' \<noteq> d \<Longrightarrow> kd (p', s', g') = None"
    and ok: "\<And>p'. kd (p', d # rest, (i, b) # g) = Some m"
  shows "rx_match (Grp i (LazyPlus c)) (rx_match (Star is_space) kd) (p, b @ w @ d # rest, g) = Some m"
proof -
  let ?s = "b @ w @ d # rest"
  let ?K = "\<lambda>(p', s', g'). rx_match (Star is_space) kd (p', s', (i, take (length ?s - length s') ?s) # g')"
  have "rep_lazy c 1 ?K p ?s g = Some m"
  proof (rule rep_lazy_first [where m = "length b"])
    show "1 \<le> length b" using b(1) by (cases b) simp_all
    show "length b \<le> length ?s" by simp
    show "\<forall>x \<in> set (take (length b) ?s). c x" using b(3) by simp
  next
    fix j assume j: "1 \<le> j" "j < length b"
    let ?u = "drop j b @ w @ d # rest"
    have dj: "drop j ?s = ?u" using j by simp
    have ne: "drop j b \<noteq> []" using j by simp
    have lst: "\<not> is_space (last (drop j b))" using j b(2) by simp
    have "rep_greedy is_space 0 kd (last_char p (take j ?s)) ?u ((i, take j b) # g) = None"
    proof (rule rep_greedy_fail)
      fix i' assume "i' \<le> length (takeWhile is_space ?u)"
      with takeWhile_short [where xs = "drop j b" and P = is_space and ys = "w @ d # rest", OF ne lst]
      have i': "i' < length (drop j b)" by simp
      then have "hd (drop i' ?u) = drop j b ! i'"
        by (simp add: hd_drop_conv_nth nth_append add.commute)
      moreover have "drop j b ! i' \<in> set b"
        using i' by (metis nth_mem in_set_dropD)
      ultimately have "hd (drop i' ?u) \<noteq> d" using b(4) by auto
      then show "kd (last_char (last_char p (take j ?s)) (take i' ?u), drop i' ?u, (i, take j b) # g) = None"
        by (intro fail) simp
    qed
    then show "?K (last_char p (take j ?s), drop j ?s, g) = None"
      using j by (simp add: dj)
  next
    have "rep_greedy is_space 0 kd (last_char p b) (w @ d # rest) ((i, b) # g) = Some m"
    proof (rule rep_greedy_run)
      show "\<forall>x \<in> set w. is_space x" by (rule w)
      show "d # rest = [] \<or> \<not> is_space (hd (d # rest))" using d by simp
      show "0 \<le> length w" by simp
      show "kd (last_char (last_char p b) w, d # rest, (i, b) # g) = Some m"
        by (rule ok)
    qed
    then show "?K (last_char p (take (length b) ?s), drop (length b) ?s, g) = Some m"
      by simp
  qed
  then show ?thesis by simp
qed

lemma lit_fail: "s' = [] \<or> hd s' \<noteq> d \<Longrightarrow> rx_match (Lit [d]) k (p', s', g') = None"
  by (cases s') auto

lemma lit_seq_fail: "s' = [] \<or> hd s' \<noteq> d \<Longrightarrow> rx_match (Seq (Lit [d]) r) k (p', s', g') = None"
  by (cases s') auto

lemma star_spaces_run:
  assumes "\<forall>x \<in> set w. is_space x" and "s \<noteq> []" and "\<not> is_space (hd s)"
    and "\<And>p'. k (p', s, g) = Some m"
  shows "rx_match (Star is_space) k (p, w @ s, g) = Some m"
proof -
  have "rep_greedy is_space 0 k p (w @ s) g = Some m"
    using assms by (intro rep_greedy_run) simp_all
  then show ?thesis by simp
qed

lemma record_rx_run:
  assumes kb: "kb \<noteq> []" "\<not> is_space (hd kb)" "\<not> is_space (last kb)" "CHR '','' \<notin> set kb"
      "NL \<notin> set kb"
    and ka: "\<forall>x \<in> set ka. is_space x" and kc: "\<forall>x \<in> set kc. is_space x"
    and vb: "vb \<noteq> []" "\<not> is_space (hd vb)" "\<not> is_space (last vb)" "CHR ''>'' \<notin> set vb"
      "NL \<notin> set vb"
    and va: "\<forall>x \<in> set va. is_space x" and vc: "\<forall>x \<in> set vc. is_space x"
    and k: "\<And>p'. k (p', rest, [(2, vb), (1, kb)]) = Some m"
  shows "rx_match record_rx k
    (p, ''Record<'' @ ka @ kb @ kc @ '','' @ va @ vb @ vc @ ''>'' @ rest, []) = Some m"
proof -
  let ?R2 = "Seq (Grp 2 (LazyPlus not_newline)) (Seq (Star is_space) (Lit ''>''))"
  let ?R1 = "Seq (Grp 1 (LazyPlus not_newline))
     (Seq (Star is_space) (Seq (Lit '','') (Seq (Star is_space) ?R2)))"
  have nl: "\<forall>x \<in> set kb. not_newline x" "\<forall>x \<in> set vb. not_newline x"
    using kb(5) vb(5) by (auto simp: not_newline_def)
  have sp: "\<not> is_space CHR '',''" "\<not> is_space CHR ''>''" by (simp_all add: is_space_def)
  have f3: "rx_match (Grp 2 (LazyPlus not_newline)) (rx_match (Star is_space) (rx_match (Lit ''>'') k))
      (p', vb @ vc @ CHR ''>'' # rest, [(1, kb)]) = Some m" for p'
  proof (rule lazy_group_then_spaces [OF vb(1) vb(3) nl(2) vb(4) vc sp(2)])
    show "rx_match (Lit ''>'') k (p'', CHR ''>'' # rest, [(2, vb), (1, kb)]) = Some m" for p''
      using k by simp
  qed (rule lit_fail)
  have f2: "rx_match (Seq (Star is_space) ?R2) k (p', va @ vb @ vc @ CHR ''>'' # rest, [(1, kb)]) = Some m"
    for p'
  proof -
    have "rx_match (Star is_space) (rx_match ?R2 k) (p', va @ (vb @ vc @ CHR ''>'' # rest), [(1, kb)])
        = Some m"
      using va vb(1,2) f3 by (intro star_spaces_run) (simp_all add: hd_append)
    then show ?thesis by simp
  qed
  have f1: "rx_match ?R1 k (p', kb @ kc @ CHR '','' # va @ vb @ vc @ CHR ''>'' # rest, []) = Some m"
    for p'
  proof -
    have "rx_match (Grp 1 (LazyPlus not_newline))
        (rx_match (Star is_space) (rx_match (Seq (Lit '','') (Seq (Star is_space) ?R2)) k))
        (p', kb @ kc @ CHR '','' # va @ vb @ vc @ CHR ''>'' # rest, []) = Some m"
    proof (rule lazy_group_then_spaces [OF kb(1) kb(3) nl(1) kb(4) kc sp(1)])
      show "rx_match (Seq (Lit '','') (Seq (Star is_space) ?R2)) k
          (p'', CHR '','' # va @ vb @ vc @ CHR ''>'' # rest, [(1, kb)]) = Some m" for p''
        using f2 by simp
    qed (rule lit_seq_fail)
    then show ?thesis by simp
  qed
  have "rx_match (Star is_space) (rx_match ?R1 k)
      (Some CHR ''<'', ka @ (kb @ kc @ CHR '','' # va @ vb @ vc @ CHR ''>'' # rest), []) = Some m"
    using ka kb(1,2) f1 by (intro star_spaces_run) (simp_all add: hd_append)
  then show ?thesis
    by (simp add: record_rx_def)
qed

lemma record_rx_match:
  assumes kb: "kb \<noteq> []" "\<not> is_space (hd kb)" "\<not> is_space (last kb)" "CHR '','' \<notin> set kb"
      "NL \<notin> set kb"
    and ka: "\<forall>x \<in> set ka. is_space x" and kc: "\<forall>x \<in> set kc. is_space x"
    and vb: "vb \<noteq> []" "\<not> is_space (hd vb)" "\<not> is_space (last vb)" "CHR ''>'' \<notin> set vb"
      "NL \<notin> set vb"
    and va: "\<forall>x \<in> set va. is_space x" and vc: "\<forall>x \<in> set vc. is_space x"
  shows "re_match record_rx ((''Record<'' @ ka @ kb @ kc @ '','' @ va @ vb @ vc @ ''>'') @ rest) =
    Some (''Record<'' @ ka @ kb @ kc @ '','' @ va @ vb @ vc @ ''>'', [(2, vb), (1, kb)])"
  unfolding re_match_def
proof (rule match_at_run)
  fix k :: "mstate \<Rightarrow> match option" and m'
  assume a: "\<And>p'. k (p', rest, [(2, vb), (1, kb)]) = Some m'"
  have "rx_match record_rx k (None, ''Record<'' @ ka @ kb @ kc @ '','' @ va @ vb @ vc @ ''>'' @ rest, [])
      = Some m'"
    by (rule record_rx_run) (rule assms a)+
  then show "rx_match record_rx k (None, (''Record<'' @ ka @ kb @ kc @ '','' @ va @ vb @ vc @ ''>'') @ rest, [])
      = Some m'"
    by simp
qed

section \<open>Lemmas about the recursion limit\<close>

lemma collect_map_Inr: "(\<And>x. x \<in> set xs \<Longrightarrow> f x = Inr (h x)) \<Longrightarrow> collect (map f xs) = Inr (map h xs)"
  by (induction xs) simp_all

lemma depth_enough:
  "length ts < depth \<Longrightarrow> convert_type_depth depth self ts opt = Inr (convert_type self ts opt)"
proof (induction depth arbitrary: ts opt)
  case 0
  then show ?case by simp
next
  case (Suc depth)
  let ?t = "norm_type ts"
  have t: "length ?t \<le> depth" using length_norm_type [of ts] Suc.prems by simp
  have IH: "\<And>u. length u < length ?t \<Longrightarrow>
      convert_type_depth depth self u False = Inr (convert_type self u False)"
    using t by (intro Suc.IH) simp
  have a1: "endswith ?t ''[]'' \<Longrightarrow> length (strip (take (length ?t - 2) ?t)) < length ?t"
  proof -
    assume "endswith ?t ''[]''"
    then have "2 \<le> length ?t" using endswith_length [of ?t "''[]''"] by simp
    then have "length (take (length ?t - 2) ?t) < length ?t" by simp
    then show ?thesis using length_strip [of "take (length ?t - 2) ?t"] by simp
  qed
  have a2: "startswith ?t ''Array<'' \<Longrightarrow>
      length (strip (drop 6 (take (length ?t - 1) ?t))) < length ?t"
  proof -
    assume "startswith ?t ''Array<''"
    then have "6 \<le> length ?t" using startswith_length [of ?t "''Array<''"] by simp
    then have "length (drop 6 (take (length ?t - 1) ?t)) < length ?t" by simp
    then show ?thesis using length_strip [of "drop 6 (take (length ?t - 1) ?t)"] by simp
  qed
  have a3: "\<And>v. record_value_type ?t = Some v \<Longrightarrow> length v < length ?t"
    by (rule record_value_type_shorter)
  have a4: "py_in '' | '' ?t \<Longrightarrow>
      collect (map (\<lambda>u. convert_type_depth depth self u False) (map strip (split_on CHR ''|'' ?t)))
      = Inr (map (\<lambda>u. convert_type self u False) (map strip (split_on CHR ''|'' ?t)))"
  proof (rule collect_map_Inr)
    fix u assume p: "py_in '' | '' ?t" and "u \<in> set (map strip (split_on CHR ''|'' ?t))"
    then obtain u' where u': "u' \<in> set (split_on CHR ''|'' ?t)" "u = strip u'" by auto
    from py_in_set [OF p] have "CHR ''|'' \<in> set ?t" by simp
    then have "length u < length ?t"
      using split_on_shorter [of "CHR ''|''" ?t u'] u' length_strip [of u'] by simp
    then show "convert_type_depth depth self u False = Inr (convert_type self u False)" by (rule IH)
  qed
  have r1: "endswith ?t ''[]'' \<Longrightarrow>
      convert_type_depth depth self (strip (take (length ?t - 2) ?t)) False =
      Inr (convert_type self (strip (take (length ?t - 2) ?t)) False)"
    by (rule IH, rule a1)
  have r2: "startswith ?t ''Array<'' \<Longrightarrow>
      convert_type_depth depth self (strip (drop 6 (take (length ?t - Suc 0) ?t))) False =
      Inr (convert_type self (strip (drop 6 (take (length ?t - Suc 0) ?t))) False)"
    using IH [OF a2] by simp
  have r3: "\<And>v. record_value_type ?t = Some v \<Longrightarrow>
      convert_type_depth depth self v False = Inr (convert_type self v False)"
    by (rule IH, rule a3)
  show ?case
  proof (cases "map_of TYPE_MAP ?t")
    case (Some z)
    then show ?thesis
      by (simp add: convert_type_primitive optional_suffix_def Let_def)
  next
    case None
    show ?thesis
    proof (cases "endswith ?t ''[]''")
      case True
      with None show ?thesis
        by (simp add: convert_type_array_suffix optional_suffix_def Let_def r1)
    next
      case no_suffix: False
      show ?thesis
      proof (cases "startswith ?t ''Array<'' \<and> endswith ?t ''>''")
        case True
        with None no_suffix show ?thesis
          by (simp add: convert_type_array_generic optional_suffix_def Let_def r2)
      next
        case no_generic: False
        show ?thesis
        proof (cases "startswith ?t ''Record<''")
          case True
          show ?thesis
          proof (cases "record_value_type ?t")
            case no_match: None
            with None no_suffix no_generic True show ?thesis
              by (auto simp: convert_type_record optional_suffix_def Let_def)
          next
            case (Some v)
            with None no_suffix no_generic True show ?thesis
              by (auto simp: convert_type_record optional_suffix_def Let_def r3)
          qed
        next
          case no_record: False
          show ?thesis
          proof (cases "py_in '' | '' ?t")
            case True
            with None no_suffix no_generic no_record show ?thesis
              by (auto simp: convert_type_union optional_suffix_def Let_def a4 convert_all_def simp del: map_map)
          next
            case no_union: False
            with None no_suffix no_generic no_record show ?thesis
              by (subst convert_type_cases) (auto simp: optional_suffix_def Let_def)
          qed
        qed
      qed
    qed
  qed
qed

subsection \<open>Every type expression is shorter than the input\<close>

lemma match_at_within: "match_at r p s = Some m \<Longrightarrow> match_within (length s) m"
proof -
  assume m: "match_at r p s = Some m"
  let ?k = "\<lambda>(p', s', g'). Some (take (length s - length s') s, g')"
  from m have run: "rx_match r ?k (p, s, []) = Some m" by (simp add: match_at_def)
  have "bounded (length s) (p, s, [])" by (simp add: bounded_def)
  from rx_match_reaches [OF run this] obtain st' where b: "bounded (length s) st'"
    and k: "?k st' = Some m" by blast
  obtain p' s' g' where st': "st' = (p', s', g')" by (cases st')
  from k st' have "m = (take (length s - length s') s, g')" by auto
  with b st' show ?thesis by (auto simp: match_within_def bounded_def)
qed

lemma match_within_mono: "match_within n m \<Longrightarrow> n \<le> n' \<Longrightarrow> match_within n' m"
  by (fastforce simp: match_within_def)

lemma search_from_within: "search_from r p s = Some m \<Longrightarrow> match_within (length s) m"
proof (induction s arbitrary: p)
  case Nil
  then have "match_at r p [] = Some m" by simp
  from match_at_within [OF this] show ?case by simp
next
  case (Cons x xs)
  show ?case
  proof (cases "match_at r p (x # xs)")
    case None
    with Cons.prems have "search_from r (Some x) xs = Some m" by simp
    from Cons.IH [OF this] show ?thesis by (rule match_within_mono) simp
  next
    case (Some m')
    with Cons.prems have "match_at r p (x # xs) = Some m" by simp
    then show ?thesis by (rule match_at_within)
  qed
qed

lemma finditer_from_within:
  "m \<in> set (finditer_from r p s skip) \<Longrightarrow> match_within (length s) m"
proof (induction s arbitrary: p skip)
  case Nil
  show ?case
  proof (cases "match_at r p []")
    case None
    with Nil show ?thesis by (cases "skip = 0") simp_all
  next
    case (Some m')
    with Nil have "match_at r p [] = Some m" by (cases "skip = 0") simp_all
    from match_at_within [OF this] show ?thesis by simp
  qed
next
  case (Cons x xs)
  show ?case
  proof (cases "0 < skip")
    case True
    with Cons.prems have "m \<in> set (finditer_from r (Some x) xs (skip - 1))" by simp
    from Cons.IH [OF this] show ?thesis by (rule match_within_mono) simp
  next
    case False
    show ?thesis
    proof (cases "match_at r p (x # xs)")
      case None
      with False Cons.prems have "m \<in> set (finditer_from r (Some x) xs 0)" by simp
      from Cons.IH [OF this] show ?thesis by (rule match_within_mono) simp
    next
      case (Some m')
      with False Cons.prems
      have "m = m' \<or> m \<in> set (finditer_from r (Some x) xs (length (fst m') - 1))" by simp
      then show ?thesis
      proof
        assume "m = m'"
        with Some have "match_at r p (x # xs) = Some m" by simp
        then show ?thesis by (rule match_at_within)
      next
        assume "m \<in> set (finditer_from r (Some x) xs (length (fst m') - 1))"
        from Cons.IH [OF this] show ?thesis by (rule match_within_mono) simp
      qed
    qed
  qed
qed

lemma group_text_within: "match_within n m \<Longrightarrow> length (group_text m i) \<le> n"
proof -
  assume w: "match_within n m"
  show ?thesis
  proof (cases "group m i")
    case None
    then show ?thesis by (simp add: group_text_def)
  next
    case (Some v)
    then have "v = fst m \<or> (i, v) \<in> set (snd m)"
      by (auto simp: group_def dest: map_of_SomeD split: if_splits)
    with w have "length v \<le> n" by (auto simp: match_within_def)
    with Some show ?thesis by (simp add: group_text_def)
  qed
qed

lemma length_rstrip_char: "length (rstrip_char d s) \<le> length s"
  using length_dropWhile_le [of "\<lambda>c. c = d" "rev s"] by (simp add: rstrip_char_def)

lemma parse_type_alias_bound:
  assumes "parse_type_alias s = Inr (n, d)"
  shows "length d \<le> length s"
proof -
  from assms obtain m where m: "re_search type_alias_rx s = Some m"
    and d: "d = rstrip_char CHR '';'' (strip (group_text m 2))"
    by (auto simp: parse_type_alias_def split: option.splits)
  from m have "match_within (length s) m" by (simp add: re_search_def search_from_within)
  then have "length (group_text m 2) \<le> length s" by (rule group_text_within)
  then show ?thesis
    using length_rstrip_char [of "CHR '';''" "strip (group_text m 2)"]
      length_strip [of "group_text m 2"] d by simp
qed

lemma parse_interface_bound:
  assumes "parse_interface s = Inr (n, fs)" and "f \<in> set fs"
  shows "length (fst (snd f)) \<le> length s"
proof (cases "re_search body_rx s")
  case None
  with assms show ?thesis by (auto simp: parse_interface_def split: option.splits)
next
  case (Some bm)
  then have "match_within (length s) bm" by (simp add: re_search_def search_from_within)
  then have body: "length (group_text bm 1) \<le> length s" by (rule group_text_within)
  from assms Some obtain fm where fm: "fm \<in> set (re_finditer field_pattern (group_text bm 1))"
    and f: "f = field_of_match fm"
    by (auto simp: parse_interface_def split: option.splits)
  from fm have "match_within (length (group_text bm 1)) fm"
    by (simp add: re_finditer_def finditer_from_within)
  then have "length (group_text fm 4) \<le> length (group_text bm 1)" by (rule group_text_within)
  then have "length (strip (group_text fm 4)) \<le> length s"
    using length_strip [of "group_text fm 4"] body by simp
  with f show ?thesis by (simp add: field_of_match_def)
qed

lemma parsed_types_bound:
  assumes "(n, d) \<in> set (parsed_types input_content)"
  shows "length d \<le> length input_content"
  using assms [unfolded parsed_types_def]
proof (rule in_concat_mapE)
  fix m
  assume m: "m \<in> set (re_finditer type_pattern input_content)"
    and nd: "(n, d) \<in> set (case parse_type_alias (fst m) of
      Inr (name, type_def) \<Rightarrow> [(name, type_def)] | Inl e \<Rightarrow> [])"
  from m have "match_within (length input_content) m"
    by (simp add: re_finditer_def finditer_from_within)
  then have len: "length (fst m) \<le> length input_content" by (simp add: match_within_def)
  show ?thesis
  proof (cases "parse_type_alias (fst m)")
    case (Inl e)
    with nd show ?thesis by simp
  next
    case (Inr r)
    obtain name type_def where r: "r = (name, type_def)" by (cases r)
    with nd Inr have "parse_type_alias (fst m) = Inr (n, d)" by simp
    from parse_type_alias_bound [OF this] len show ?thesis by simp
  qed
qed

lemma parsed_interfaces_bound:
  assumes "(n, s) \<in> set (parsed_interfaces input_content)"
  shows "length s \<le> length input_content"
  using assms [unfolded parsed_interfaces_def]
proof (rule in_concat_mapE)
  fix m
  assume m: "m \<in> set (re_finditer interface_pattern input_content)"
    and ns: "(n, s) \<in> set (case parse_interface (fst m) of
      Inr (name, fieldlist) \<Rightarrow> [(name, fst m)] | Inl e \<Rightarrow> [])"
  from m have "match_within (length input_content) m"
    by (simp add: re_finditer_def finditer_from_within)
  then have len: "length (fst m) \<le> length input_content" by (simp add: match_within_def)
  show ?thesis
  proof (cases "parse_interface (fst m)")
    case (Inl e)
    with ns show ?thesis by simp
  next
    case (Inr r)
    obtain name fieldlist where r: "r = (name, fieldlist)" by (cases r)
    with ns Inr have "s = fst m" by simp
    with len show ?thesis by simp
  qed
qed

subsection \<open>With room on the stack the functions return the results of the functions above\<close>

lemma field_line_depth_eq:
  "length (fst (snd f)) < depth \<Longrightarrow> field_line_depth depth self f = Inr (field_line self f)"
proof -
  assume len: "length (fst (snd f)) < depth"
  obtain field_name field_type optional description
    where f: "f = (field_name, field_type, optional, description)" by (cases f)
  with len have "convert_type_depth depth self field_type optional =
      Inr (convert_type self field_type optional)" by (simp add: depth_enough)
  with f show ?thesis
    by (simp add: field_line_depth_def field_line_def Let_def split: option.splits)
qed

lemma interface_to_zod_depth_eq:
  "(\<And>f. f \<in> set fieldlist \<Longrightarrow> length (fst (snd f)) < depth) \<Longrightarrow>
   interface_to_zod_depth depth self name fieldlist = Inr (interface_to_zod self name fieldlist)"
proof -
  assume "\<And>f. f \<in> set fieldlist \<Longrightarrow> length (fst (snd f)) < depth"
  then have "collect (map (field_line_depth depth self) fieldlist) =
      Inr (map (field_line self) fieldlist)"
    by (intro collect_map_Inr field_line_depth_eq)
  then show ?thesis by (simp add: interface_to_zod_depth_def interface_to_zod_def)
qed

lemma type_alias_to_zod_depth_eq:
  "length type_def < depth \<Longrightarrow>
   type_alias_to_zod_depth depth self name type_def = Inr (type_alias_to_zod self name type_def)"
  by (simp add: type_alias_to_zod_depth_def type_alias_to_zod_def depth_enough)

lemma emit_types_depth_eq:
  "(\<And>n d. (n, d) \<in> set ds \<Longrightarrow> length d < depth) \<Longrightarrow>
   emit_types_depth depth self out ds = Inr (emit_types self out ds)"
proof (induction depth self out ds rule: emit_types_depth.induct)
  case (1 depth self out)
  then show ?case by simp
next
  case (2 depth self out name type_def rest)
  have a: "type_alias_to_zod_depth depth self name type_def =
      Inr (type_alias_to_zod self name type_def)"
    using "2.prems" [of name type_def] by (simp add: type_alias_to_zod_depth_eq)
  have "emit_types_depth depth self (out @ [type_alias_to_zod self name type_def] @ [[]]) rest =
      Inr (emit_types self (out @ [type_alias_to_zod self name type_def] @ [[]]) rest)"
    using "2.prems" by (intro "2.IH" [OF a]) auto
  with a show ?case by simp
qed

lemma emit_interfaces_depth_eq:
  "(\<And>n s f. (n, s) \<in> set ds \<Longrightarrow> length s < depth) \<Longrightarrow>
   emit_interfaces_depth depth self out ds = emit_interfaces self out ds"
proof (induction depth self out ds rule: emit_interfaces_depth.induct)
  case (1 depth self out)
  then show ?case by simp
next
  case (2 depth self out name interface_str rest)
  show ?case
  proof (cases "parse_interface interface_str")
    case (Inl e)
    then show ?thesis by simp
  next
    case (Inr r)
    obtain n fieldlist where r: "r = (n, fieldlist)" by (cases r)
    have len: "length interface_str < depth" using "2.prems" [of name interface_str] by simp
    have a: "interface_to_zod_depth depth self name fieldlist =
        Inr (interface_to_zod self name fieldlist)"
    proof (rule interface_to_zod_depth_eq)
      fix f assume "f \<in> set fieldlist"
      with Inr r have "length (fst (snd f)) \<le> length interface_str"
        by (intro parse_interface_bound) auto
      with len show "length (fst (snd f)) < depth" by simp
    qed
    have "emit_interfaces_depth depth self (out @ [interface_to_zod self name fieldlist] @ [[]]) rest =
        emit_interfaces self (out @ [interface_to_zod self name fieldlist] @ [[]]) rest"
      using "2.prems" Inr r by (intro "2.IH" [OF _ _ a]) auto
    with Inr r a show ?thesis by simp
  qed
qed

lemma convert_file_depth_eq:
  assumes "length input_content < depth"
  shows "convert_file_depth depth new_converter input_content =
    convert_file new_converter input_content"
proof -
  let ?c = "populate new_converter input_content"
  have t: "\<And>n d. (n, d) \<in> set (types ?c) \<Longrightarrow> length d < depth"
    using dict_of_subset [of "parsed_types input_content"] parsed_types_bound [of _ _ input_content]
      assms by (fastforce simp: populate_new)
  have i: "\<And>n s. (n, s) \<in> set (interfaces ?c) \<Longrightarrow> length s < depth"
    using dict_of_subset [of "parsed_interfaces input_content"]
      parsed_interfaces_bound [of _ _ input_content] assms by (fastforce simp: populate_new)
  show ?thesis
    by (simp add: convert_file_depth_def convert_file_def Let_def emit_types_depth_eq [OF t]
        emit_interfaces_depth_eq [OF i])
qed

subsection \<open>A nesting deeper than the limit\<close>

lemma TYPE_MAP_identifier: "map_of TYPE_MAP t = Some z \<Longrightarrow> is_identifier t"
  by (auto simp: TYPE_MAP_def is_identifier_def is_word_def split: if_splits)

lemma TYPE_MAP_none: "c \<in> set t \<Longrightarrow> \<not> is_word c \<Longrightarrow> map_of TYPE_MAP t = None"
proof (cases "map_of TYPE_MAP t")
  case None
  then show ?thesis by simp
next
  case (Some z)
  assume "c \<in> set t" "\<not> is_word c"
  with TYPE_MAP_identifier [OF Some] show ?thesis by (auto simp: is_identifier_def)
qed

lemma norm_plain:
  assumes "ts \<noteq> []" "\<not> is_space (hd ts)" "\<not> is_space (last ts)" "last ts \<noteq> CHR ''?''"
    and "\<not> has_absent_branch ts"
  shows "norm_type ts = ts" and "norm_optional ts opt = opt"
proof -
  have s: "strip ts = ts" using assms(1-3) by (rule strip_id)
  have q: "\<not> endswith ts ''?''" using assms(4) endswith_last [of ts "''?''"] by auto
  from s q assms(5) show "norm_type ts = ts" "norm_optional ts opt = opt"
    by (simp_all add: norm_type_def norm_optional_def strip_question_def)
qed

lemma no_space_no_absent_branch: "CHR '' '' \<notin> set t \<Longrightarrow> \<not> has_absent_branch t"
  using py_in_set [of "'' | undefined''" t] py_in_set [of "'' | null''" t]
  by (auto simp: has_absent_branch_def)

lemma endswith_append: "endswith (xs @ w) w"
  by (simp add: endswith_def)

text \<open>An array type nested \<open>n\<close> times: \<^verbatim>\<open>string\<close> followed by \<open>n\<close> times \<^verbatim>\<open>[]\<close>.\<close>

lemma concat_replicate_Suc: "concat (replicate (Suc n) w) = concat (replicate n w) @ w"
  by (induction n) simp_all

lemma nested_array_chars:
  "set (''string'' @ concat (replicate n ''[]'')) \<subseteq> set ''string[]''"
  by (induction n) auto

lemma nested_array_plain:
  "(''string'' @ concat (replicate n ''[]'')) \<noteq> []"
  "\<not> is_space (hd (''string'' @ concat (replicate n ''[]'')))"
  "\<not> is_space (last (''string'' @ concat (replicate n ''[]'')))"
  "last (''string'' @ concat (replicate n ''[]'')) \<noteq> CHR ''?''"
  "\<not> has_absent_branch (''string'' @ concat (replicate n ''[]''))"
proof -
  let ?u = "''string'' @ concat (replicate n ''[]'')"
  have chars: "set ?u \<subseteq> set ''string[]''" by (rule nested_array_chars)
  show ne: "?u \<noteq> []" by simp
  then have "last ?u \<in> set ?u" by (rule last_in_set)
  with chars have l: "last ?u \<in> set ''string[]''" by blast
  then show "\<not> is_space (last ?u)" "last ?u \<noteq> CHR ''?''" by (auto simp: is_space_def)
  show "\<not> is_space (hd ?u)" by (simp add: is_space_def)
  have "CHR '' '' \<notin> set ?u" using chars by auto
  then show "\<not> has_absent_branch ?u" by (rule no_space_no_absent_branch)
qed

lemma nested_array_norm:
  "norm_type (''string'' @ concat (replicate n ''[]'')) = ''string'' @ concat (replicate n ''[]'')"
  by (rule norm_plain) (rule nested_array_plain)+

lemma nested_array_strip:
  "strip (''string'' @ concat (replicate n ''[]'')) = ''string'' @ concat (replicate n ''[]'')"
  by (rule strip_id) (rule nested_array_plain)+

lemma convert_type_depth_array_suffix:
  "map_of TYPE_MAP (norm_type ts) = None \<Longrightarrow> endswith (norm_type ts) ''[]'' \<Longrightarrow>
   convert_type_depth depth self (strip (take (length (norm_type ts) - 2) (norm_type ts))) False
     = Inl e \<Longrightarrow>
   convert_type_depth (Suc depth) self ts opt = Inl e"
  by (simp add: Let_def)

lemma nested_array_raises:
  "convert_type_depth n self (''string'' @ concat (replicate n ''[]'')) opt = Inl RecursionError"
proof (induction n arbitrary: opt)
  case 0
  then show ?case by simp
next
  case (Suc n)
  let ?u = "''string'' @ concat (replicate n ''[]'')"
  let ?t = "''string'' @ concat (replicate (Suc n) ''[]'')"
  have t: "?t = ?u @ ''[]''"
    by (simp only: concat_replicate_Suc append_assoc)
  have n: "norm_type ?t = ?t" by (rule nested_array_norm)
  have "CHR '']'' \<in> set (?u @ ''[]'')" by simp
  then have "CHR '']'' \<in> set ?t" by (simp only: t)
  then have 1: "map_of TYPE_MAP ?t = None"
    by (rule TYPE_MAP_none) (simp add: not_word_chars)
  have 2: "endswith ?t ''[]''" unfolding t by (rule endswith_append)
  have "take (length (?u @ ''[]'') - 2) (?u @ ''[]'') = ?u" by simp
  then have "take (length ?t - 2) ?t = ?u" by (simp only: t)
  then have 3: "strip (take (length ?t - 2) ?t) = ?u" by (simp only: nested_array_strip)
  have 4: "convert_type_depth n self ?u False = Inl RecursionError" by (rule Suc.IH)
  show ?case
    by (rule convert_type_depth_array_suffix) (simp_all only: n 1 2 3 4)
qed

section \<open>The text of each block\<close>

lemma join_lines:
  "join [NL] ([a] @ xs @ [b, [], c]) = a @ [NL] @ concat (map (\<lambda>x. x @ [NL]) xs) @ b @ [NL, NL] @ c"
proof (induction xs arbitrary: a)
  case Nil
  then show ?case by simp
next
  case (Cons x xs)
  have "join [NL] ([a] @ (x # xs) @ [b, [], c]) = a @ [NL] @ join [NL] ([x] @ xs @ [b, [], c])"
    by simp
  with Cons [of x] show ?case by simp
qed

lemma type_alias_to_zod_text:
  "type_alias_to_zod self name type_def =
     ''export const '' @ name @ ''Schema = '' @ convert_type self type_def False @ '';'' @ [NL, NL] @
     ''export type '' @ name @ '' = z.infer<typeof '' @ name @ ''Schema>;''"
  by (simp add: type_alias_to_zod_def)

lemma enum_to_zod_text:
  "enum_to_zod name vals =
     ''export const '' @ name @ ''Schema = '' @
     (if length vals = 1 then ''z.literal('' @ [DQ] @ hd vals @ [DQ] @ '')''
      else ''z.enum(['' @ join '', '' (map (\<lambda>v. [DQ] @ v @ [DQ]) vals) @ ''])'') @
     '';'' @ [NL, NL] @
     ''export type '' @ name @ '' = z.infer<typeof '' @ name @ ''Schema>;''"
proof (cases "length vals = 1")
  case True
  then obtain v where "vals = [v]" by (cases vals) auto
  then show ?thesis by (simp add: enum_to_zod_def)
next
  case False
  then show ?thesis by (simp add: enum_to_zod_def Let_def)
qed

lemma field_line_text:
  "field_line self (field_name, field_type, optional, description) =
     ''  '' @ field_name @ '': '' @ convert_type self field_type optional @
     (case description of
        Some d \<Rightarrow> if d \<noteq> [] then ''.describe('' @ [DQ] @ d @ [DQ] @ '')'' else []
      | None \<Rightarrow> []) @ '',''"
  by (simp add: field_line_def split: option.splits)

lemma interface_to_zod_text:
  "interface_to_zod self name fieldlist =
     ''export const '' @ name @ ''Schema = z.object({'' @ [NL] @
     concat (map (\<lambda>f. field_line self f @ [NL]) fieldlist) @
     ''});'' @ [NL, NL] @
     ''export type '' @ name @ '' = z.infer<typeof '' @ name @ ''Schema>;''"
  unfolding interface_to_zod_def
  using join_lines [of "''export const '' @ name @ ''Schema = z.object({''" "map (field_line self) fieldlist"
      "''});''" "''export type '' @ name @ '' = z.infer<typeof '' @ name @ ''Schema>;''"]
  by (simp add: comp_def)

lemma unknown_identifier_fallback:
  assumes w: "is_identifier w" and prim: "map_of TYPE_MAP w = None"
    and key: "\<not> has_key w (interfaces self)" "\<not> has_key w (types self)" "\<not> has_key w (enums self)"
  shows "convert_type self w opt =
    ''z.any() /* TODO: define schema for '' @ w @ '' */'' @ optional_suffix opt"
proof -
  have n: "norm_type w = w" and o: "norm_optional w opt = opt"
    using w by (simp_all add: identifier_norm_type identifier_norm_optional)
  have 1: "\<not> endswith w ''[]''"
    using w by (rule identifier_not_endswith) (simp_all add: not_word_chars)
  have 2: "\<not> startswith w ''Array<''" "\<not> startswith w ''Record<''"
    using w by (rule identifier_not_startswith [where c = "CHR ''<''"]; simp add: not_word_chars)+
  have 3: "\<not> py_in '' | '' w"
    using w by (rule identifier_not_py_in [where c = "CHR '' ''"]; simp add: not_word_chars)
  have 4: "\<not> startswith w [SQ]"
    using w by (rule identifier_not_startswith [where c = SQ]) (simp_all add: not_word_chars)
  have 5: "\<not> startswith w [DQ]"
    using w by (rule identifier_not_startswith [where c = DQ]) (simp_all add: not_word_chars)
  have "\<not> matched_by_rule self (norm_type w)"
    using prim key 1 2 3 4 5 by (simp add: n matched_by_rule_def)
  from convert_type_fallback [OF this, of opt] show ?thesis by (simp add: n o)
qed

section \<open>The claims\<close>

text \<open>
  Claim C1, as amended. \<^verbatim>\<open>convert_type\<close> calls itself once for each level of nesting of
  the expression, so it returns only while the interpreter's stack has room: with room for
  \<open>depth\<close> nested calls, every expression shorter than \<open>depth\<close> characters is converted
  without an exception, and the result is the one the rule chain defines. A type expression
  that no earlier rule matches yields \<^verbatim>\<open>z.any()\<close> with a comment that names the expression,
  followed by the optional wrapper if one is due; an identifier that is neither a primitive
  keyword nor a declared name is such an expression. For every input shorter than \<open>depth\<close>
  characters \<^verbatim>\<open>convert_file\<close> returns the complete output: the header, then for each
  registry entry its schema constant and its type binding, in the order enumerations, type
  aliases, shapes, together with the filled registries.
\<close>

theorem conversion_returns_within_limit:
  "(length ts_type < depth \<longrightarrow>
      convert_type_depth depth self ts_type optional = Inr (convert_type self ts_type optional)) \<and>
   (\<not> matched_by_rule self (norm_type ts_type) \<longrightarrow>
      convert_type self ts_type optional =
        ''z.any() /* TODO: define schema for '' @ norm_type ts_type @ '' */'' @
        optional_suffix (norm_optional ts_type optional)) \<and>
   (is_identifier ts_type \<and> map_of TYPE_MAP ts_type = None \<and>
    \<not> has_key ts_type (interfaces self) \<and> \<not> has_key ts_type (types self) \<and>
    \<not> has_key ts_type (enums self) \<longrightarrow>
      convert_type self ts_type optional =
        ''z.any() /* TODO: define schema for '' @ ts_type @ '' */'' @ optional_suffix optional) \<and>
   (length input_content < depth \<longrightarrow>
      convert_file_depth depth new_converter input_content =
        Inr (join [NL]
               (header_lines @
                concat (map (\<lambda>(name, vals).
                   [''export const '' @ name @ ''Schema = '' @
                    (if length vals = 1 then ''z.literal('' @ [DQ] @ hd vals @ [DQ] @ '')''
                     else ''z.enum(['' @ join '', '' (map (\<lambda>v. [DQ] @ v @ [DQ]) vals) @ ''])'') @
                    '';'' @ [NL, NL] @
                    ''export type '' @ name @ '' = z.infer<typeof '' @ name @ ''Schema>;'', []])
                  (enums (populate new_converter input_content))) @
                concat (map (\<lambda>(name, type_def).
                   [''export const '' @ name @ ''Schema = '' @
                    convert_type (populate new_converter input_content) type_def False @ '';'' @
                    [NL, NL] @
                    ''export type '' @ name @ '' = z.infer<typeof '' @ name @ ''Schema>;'', []])
                  (types (populate new_converter input_content))) @
                concat (map (\<lambda>(name, interface_str).
                   [''export const '' @ name @ ''Schema = z.object({'' @ [NL] @
                    concat (map (\<lambda>(field_name, field_type, opt, description).
                       ''  '' @ field_name @ '': '' @
                       convert_type (populate new_converter input_content) field_type opt @
                       (case description of
                          Some d \<Rightarrow> if d \<noteq> [] then ''.describe('' @ [DQ] @ d @ [DQ] @ '')'' else []
                        | None \<Rightarrow> []) @ '','' @ [NL])
                      (interface_fields interface_str)) @
                    ''});'' @ [NL, NL] @
                    ''export type '' @ name @ '' = z.infer<typeof '' @ name @ ''Schema>;'', []])
                  (interfaces (populate new_converter input_content)))),
             populate new_converter input_content))"
proof -
  let ?c = "populate new_converter input_content"
  have e: "enum_block = (\<lambda>(name, vals).
      [''export const '' @ name @ ''Schema = '' @
       (if length vals = 1 then ''z.literal('' @ [DQ] @ hd vals @ [DQ] @ '')''
        else ''z.enum(['' @ join '', '' (map (\<lambda>v. [DQ] @ v @ [DQ]) vals) @ ''])'') @
       '';'' @ [NL, NL] @
       ''export type '' @ name @ '' = z.infer<typeof '' @ name @ ''Schema>;'', []])"
    by (rule ext) (simp add: enum_block_def enum_to_zod_text split_beta)
  have t: "type_block ?c = (\<lambda>(name, type_def).
      [''export const '' @ name @ ''Schema = '' @ convert_type ?c type_def False @ '';'' @
       [NL, NL] @
       ''export type '' @ name @ '' = z.infer<typeof '' @ name @ ''Schema>;'', []])"
    by (rule ext) (simp add: type_block_def type_alias_to_zod_text split_beta)
  have f: "(\<lambda>f. field_line ?c f @ [NL]) = (\<lambda>(field_name, field_type, opt, description).
      ''  '' @ field_name @ '': '' @ convert_type ?c field_type opt @
      (case description of
         Some d \<Rightarrow> if d \<noteq> [] then ''.describe('' @ [DQ] @ d @ [DQ] @ '')'' else []
       | None \<Rightarrow> []) @ '','' @ [NL])"
    by (rule ext) (auto simp: field_line_text)
  have i: "interface_block ?c = (\<lambda>(name, interface_str).
      [''export const '' @ name @ ''Schema = z.object({'' @ [NL] @
       concat (map (\<lambda>(field_name, field_type, opt, description).
          ''  '' @ field_name @ '': '' @ convert_type ?c field_type opt @
          (case description of
             Some d \<Rightarrow> if d \<noteq> [] then ''.describe('' @ [DQ] @ d @ [DQ] @ '')'' else []
           | None \<Rightarrow> []) @ '','' @ [NL])
         (interface_fields interface_str)) @
       ''});'' @ [NL, NL] @
       ''export type '' @ name @ '' = z.infer<typeof '' @ name @ ''Schema>;'', []])"
    by (rule ext) (simp add: interface_block_def interface_to_zod_text f split_beta)
  have whole: "length input_content < depth \<Longrightarrow>
      convert_file_depth depth new_converter input_content =
        Inr (join [NL] (header_lines @ concat (map enum_block (enums ?c)) @
               concat (map (type_block ?c) (types ?c)) @
               concat (map (interface_block ?c) (interfaces ?c))), ?c)"
    by (simp only: convert_file_depth_eq convert_file_eq)
  show ?thesis
  proof (intro conjI impI)
    assume "length ts_type < depth"
    then show "convert_type_depth depth self ts_type optional = Inr (convert_type self ts_type optional)"
      by (rule depth_enough)
  next
    assume "\<not> matched_by_rule self (norm_type ts_type)"
    then show "convert_type self ts_type optional =
        ''z.any() /* TODO: define schema for '' @ norm_type ts_type @ '' */'' @
        optional_suffix (norm_optional ts_type optional)"
      by (rule convert_type_fallback)
  next
    assume "is_identifier ts_type \<and> map_of TYPE_MAP ts_type = None \<and>
      \<not> has_key ts_type (interfaces self) \<and> \<not> has_key ts_type (types self) \<and>
      \<not> has_key ts_type (enums self)"
    then show "convert_type self ts_type optional =
        ''z.any() /* TODO: define schema for '' @ ts_type @ '' */'' @ optional_suffix optional"
      by (intro unknown_identifier_fallback) simp_all
  next
    assume "length input_content < depth"
    from whole [OF this] show "convert_file_depth depth new_converter input_content =
        Inr (join [NL]
               (header_lines @
                concat (map (\<lambda>(name, vals).
                   [''export const '' @ name @ ''Schema = '' @
                    (if length vals = 1 then ''z.literal('' @ [DQ] @ hd vals @ [DQ] @ '')''
                     else ''z.enum(['' @ join '', '' (map (\<lambda>v. [DQ] @ v @ [DQ]) vals) @ ''])'') @
                    '';'' @ [NL, NL] @
                    ''export type '' @ name @ '' = z.infer<typeof '' @ name @ ''Schema>;'', []])
                  (enums (populate new_converter input_content))) @
                concat (map (\<lambda>(name, type_def).
                   [''export const '' @ name @ ''Schema = '' @
                    convert_type (populate new_converter input_content) type_def False @ '';'' @
                    [NL, NL] @
                    ''export type '' @ name @ '' = z.infer<typeof '' @ name @ ''Schema>;'', []])
                  (types (populate new_converter input_content))) @
                concat (map (\<lambda>(name, interface_str).
                   [''export const '' @ name @ ''Schema = z.object({'' @ [NL] @
                    concat (map (\<lambda>(field_name, field_type, opt, description).
                       ''  '' @ field_name @ '': '' @
                       convert_type (populate new_converter input_content) field_type opt @
                       (case description of
                          Some d \<Rightarrow> if d \<noteq> [] then ''.describe('' @ [DQ] @ d @ [DQ] @ '')'' else []
                        | None \<Rightarrow> []) @ '','' @ [NL])
                      (interface_fields interface_str)) @
                    ''});'' @ [NL, NL] @
                    ''export type '' @ name @ '' = z.infer<typeof '' @ name @ ''Schema>;'', []])
                  (interfaces (populate new_converter input_content)))),
             populate new_converter input_content)"
      unfolding e t i .
  qed
qed

theorem conversion_returns_within_limit_witness:
  "length ''Widget'' < (200::nat) \<and>
   convert_type_depth 200 new_converter ''Widget'' False =
     Inr ''z.any() /* TODO: define schema for Widget */'' \<and>
   \<not> matched_by_rule new_converter (norm_type ''Widget'') \<and>
   is_identifier ''Widget'' \<and> map_of TYPE_MAP ''Widget'' = None \<and>
   \<not> has_key ''Widget'' (interfaces new_converter) \<and>
   \<not> has_key ''Widget'' (types new_converter) \<and>
   \<not> has_key ''Widget'' (enums new_converter) \<and>
   length (''enum Color { RED, GREEN }'' @ [NL] @ ''type Id = string;'' @ [NL] @
           ''interface A {'' @ [NL] @ ''  id: Id;'' @ [NL] @
           ''  m?: Map<string, number>;'' @ [NL] @ ''}'') < (200::nat) \<and>
   convert_file_depth 200 new_converter
     (''enum Color { RED, GREEN }'' @ [NL] @ ''type Id = string;'' @ [NL] @
      ''interface A {'' @ [NL] @ ''  id: Id;'' @ [NL] @
      ''  m?: Map<string, number>;'' @ [NL] @ ''}'') =
     Inr (''import { z } from '' @ [SQ] @ ''zod'' @ [SQ] @ '';'' @ [NL, NL] @
          ''// Auto-generated Zod schemas'' @ [NL, NL] @
          ''export const ColorSchema = z.enum(['' @ [DQ] @ ''RED'' @ [DQ] @ '', '' @
             [DQ] @ ''GREEN'' @ [DQ] @ '']);'' @ [NL, NL] @
          ''export type Color = z.infer<typeof ColorSchema>;'' @ [NL, NL] @
          ''export const IdSchema = z.string();'' @ [NL, NL] @
          ''export type Id = z.infer<typeof IdSchema>;'' @ [NL, NL] @
          ''export const ASchema = z.object({'' @ [NL] @
          ''  id: IdSchema,'' @ [NL] @
          ''  m: z.any() /* TODO: define schema for Map<string, number> */.optional(),'' @ [NL] @
          ''});'' @ [NL, NL] @
          ''export type A = z.infer<typeof ASchema>;'' @ [NL],
          \<lparr>interfaces = [(''A'', ''interface A {'' @ [NL] @ ''  id: Id;'' @ [NL] @
                                 ''  m?: Map<string, number>;'' @ [NL] @ ''}'')],
           types = [(''Id'', ''string'')],
           enums = [(''Color'', [''RED'', ''GREEN''])]\<rparr>)"
  using conversion_returns_within_limit [of "''Widget''" 200 new_converter False
      "''enum Color { RED, GREEN }'' @ [NL] @ ''type Id = string;'' @ [NL] @
       ''interface A {'' @ [NL] @ ''  id: Id;'' @ [NL] @
       ''  m?: Map<string, number>;'' @ [NL] @ ''}''"]
  by (simp add: file_simps rx_simps text_simps convert_simps matched_by_rule_def is_identifier_def
      optional_suffix_def interface_fields_def)

text \<open>
  Claim C1 as the specification words it, that conversion never raises, fails: an array type
  nested a thousand levels deep needs a thousand and one nested calls of \<^verbatim>\<open>convert_type\<close>,
  and with room for a thousand the call raises \<^verbatim>\<open>RecursionError\<close>.
\<close>

theorem nested_array_counterexample:
  "convert_type_depth 1000 new_converter (''string'' @ concat (replicate 1000 ''[]'')) False =
     Inl RecursionError"
  by (rule nested_array_raises)

text \<open>
  Claim C2, as amended. The union rule applies to an expression that no earlier rule matches
  and that contains \<^verbatim>\<open>' | '\<close>. It splits the expression at every \<^verbatim>\<open>|\<close> character,
  whether or not the character is inside \<^verbatim>\<open><...>\<close> or \<^verbatim>\<open>(...)\<close>: the parts joined by
  \<^verbatim>\<open>|\<close> give the expression back and no part contains a \<^verbatim>\<open>|\<close>. Each part is stripped
  and converted on its own, and the results are wrapped in \<^verbatim>\<open>z.union([...])\<close>.
\<close>

theorem union_splits_at_every_bar:
  assumes "map_of TYPE_MAP (norm_type ts_type) = None"
    and "\<not> endswith (norm_type ts_type) ''[]''"
    and "\<not> (startswith (norm_type ts_type) ''Array<'' \<and> endswith (norm_type ts_type) ''>'')"
    and "\<not> startswith (norm_type ts_type) ''Record<''"
    and "py_in '' | '' (norm_type ts_type)"
  shows "convert_type self ts_type optional =
           ''z.union(['' @
             join '', '' (map (\<lambda>u. convert_type self (strip u) False)
                            (split_on CHR ''|'' (norm_type ts_type))) @
           ''])'' @ optional_suffix (norm_optional ts_type optional) \<and>
         join ''|'' (split_on CHR ''|'' (norm_type ts_type)) = norm_type ts_type \<and>
         (\<forall>u \<in> set (split_on CHR ''|'' (norm_type ts_type)). CHR ''|'' \<notin> set u)"
  using assms
  by (simp add: convert_type_union convert_all_def comp_def join_split_on split_on_no_sep)

theorem union_splits_at_every_bar_witness:
  "map_of TYPE_MAP (norm_type ''Foo<string | number> | boolean'') = None \<and>
   \<not> endswith (norm_type ''Foo<string | number> | boolean'') ''[]'' \<and>
   \<not> startswith (norm_type ''Foo<string | number> | boolean'') ''Array<'' \<and>
   \<not> startswith (norm_type ''Foo<string | number> | boolean'') ''Record<'' \<and>
   py_in '' | '' (norm_type ''Foo<string | number> | boolean'') \<and>
   split_on CHR ''|'' (norm_type ''Foo<string | number> | boolean'') =
     [''Foo<string '', '' number> '', '' boolean''] \<and>
   convert_type new_converter ''Foo<string | number> | boolean'' False =
     ''z.union(['' @
       join '', '' (map (\<lambda>u. convert_type new_converter (strip u) False)
                      [''Foo<string '', '' number> '', '' boolean'']) @ ''])''"
proof -
  have n: "norm_type ''Foo<string | number> | boolean'' = ''Foo<string | number> | boolean''"
    by (simp add: convert_simps text_simps)
  have o: "\<not> norm_optional ''Foo<string | number> | boolean'' False"
    by (simp add: convert_simps text_simps)
  have h: "map_of TYPE_MAP ''Foo<string | number> | boolean'' = None"
    "\<not> endswith ''Foo<string | number> | boolean'' ''[]''"
    "\<not> startswith ''Foo<string | number> | boolean'' ''Array<''"
    "\<not> startswith ''Foo<string | number> | boolean'' ''Record<''"
    "py_in '' | '' ''Foo<string | number> | boolean''"
    by (simp_all add: TYPE_MAP_def text_simps)
  have s: "split_on CHR ''|'' ''Foo<string | number> | boolean'' =
     [''Foo<string '', '' number> '', '' boolean'']"
    by simp
  from union_splits_at_every_bar [of "''Foo<string | number> | boolean''" new_converter False]
  show ?thesis
    unfolding n by (simp only: h s o optional_suffix_def) simp
qed

text \<open>
  The claim as stated fails: in \<^verbatim>\<open>Foo<string | number> | boolean\<close> the first \<^verbatim>\<open>|\<close> is
  inside \<^verbatim>\<open><...>\<close>, and \<^verbatim>\<open>convert_type\<close> splits there too. The result has three
  branches, not the two that a split at the top level gives.
\<close>

theorem nested_bar_counterexample:
  "split_top_level ''Foo<string | number> | boolean'' = [''Foo<string | number> '', '' boolean''] \<and>
   convert_type new_converter ''Foo<string | number> | boolean'' False =
     ''z.union([z.any() /* TODO: define schema for Foo<string */, z.any() /* TODO: define schema for number> */, z.boolean()])'' \<and>
   convert_type new_converter ''Foo<string | number> | boolean'' False \<noteq>
     ''z.union(['' @ convert_type new_converter ''Foo<string | number> '' False @ '', '' @
        convert_type new_converter '' boolean'' False @ ''])''"
  by (simp add: split_top_level_def convert_simps rx_simps text_simps)

text \<open>
  Claim C6, as amended. A type expression that is the name of a declared shape, alias or
  enum, and is not one of the nine primitive keywords, is converted to a reference to the
  schema of that declaration: the name followed by \<^verbatim>\<open>Schema\<close> (and by the optional wrapper
  if the caller asks for it). Declared names are identifiers.
\<close>

theorem declared_name_is_referenced:
  assumes "is_identifier name"
    and "map_of TYPE_MAP name = None"
    and "has_key name (interfaces self) \<or> has_key name (types self) \<or> has_key name (enums self)"
  shows "convert_type self name optional = name @ ''Schema'' @ optional_suffix optional"
  using assms by (rule identifier_reference)

theorem declared_name_is_referenced_witness:
  "is_identifier ''Address'' \<and> map_of TYPE_MAP ''Address'' = None \<and>
   has_key ''Address'' (interfaces (populate new_converter ''interface Address { city: string }'')) \<and>
   convert_type (populate new_converter ''interface Address { city: string }'') ''Address'' False =
     ''AddressSchema''"
proof -
  have p: "populate new_converter ''interface Address { city: string }'' =
      \<lparr>interfaces = [(''Address'', ''interface Address { city: string }'')], types = [], enums = []\<rparr>"
    by (simp add: file_simps rx_simps text_simps new_converter_def)
  have h: "is_identifier ''Address''" "map_of TYPE_MAP ''Address'' = None"
    "has_key ''Address'' [(''Address'', ''interface Address { city: string }'')]"
    by (simp_all add: is_identifier_def is_word_def TYPE_MAP_def has_key_def)
  from declared_name_is_referenced [of "''Address''"
      "\<lparr>interfaces = [(''Address'', ''interface Address { city: string }'')], types = [], enums = []\<rparr>" False]
  show ?thesis unfolding p using h by (simp add: optional_suffix_def)
qed

text \<open>
  The claim as stated fails for a declaration named like a primitive keyword: the table of
  primitives is consulted first, so the declared shape \<^verbatim>\<open>Date\<close> is converted to
  \<^verbatim>\<open>z.date()\<close> and not to \<^verbatim>\<open>DateSchema\<close>.
\<close>

theorem primitive_name_counterexample:
  "has_key ''Date'' (interfaces (populate new_converter ''interface Date { t: number }'')) \<and>
   convert_type (populate new_converter ''interface Date { t: number }'') ''Date'' False = ''z.date()'' \<and>
   convert_type (populate new_converter ''interface Date { t: number }'') ''Date'' False \<noteq> ''DateSchema''"
  by (simp add: file_simps rx_simps text_simps convert_simps)

text \<open>
  Claim C8, as amended. The output of \<^verbatim>\<open>convert_file\<close> is the header (the import line, a
  blank line, a comment line, a blank line), then one schema with its type binding for each
  declared name: the enumerations first, then the aliases, then the shapes, each followed by
  a blank line. The registries are dictionaries: their names are distinct, they are the
  names of the parsed declarations, and a name that is declared twice has one entry.
\<close>

theorem convert_file_layout:
  "convert_file new_converter input_content =
     Inr (join [NL]
            (header_lines @
             concat (map enum_block (enums (populate new_converter input_content))) @
             concat (map (type_block (populate new_converter input_content))
                       (types (populate new_converter input_content))) @
             concat (map (interface_block (populate new_converter input_content))
                       (interfaces (populate new_converter input_content)))),
          populate new_converter input_content) \<and>
   enums (populate new_converter input_content) = dict_of (parsed_enums input_content) \<and>
   types (populate new_converter input_content) = dict_of (parsed_types input_content) \<and>
   interfaces (populate new_converter input_content) = dict_of (parsed_interfaces input_content) \<and>
   distinct (map fst (dict_of (parsed_enums input_content))) \<and>
   distinct (map fst (dict_of (parsed_types input_content))) \<and>
   distinct (map fst (dict_of (parsed_interfaces input_content))) \<and>
   set (map fst (dict_of (parsed_enums input_content))) = set (map fst (parsed_enums input_content)) \<and>
   set (map fst (dict_of (parsed_types input_content))) = set (map fst (parsed_types input_content)) \<and>
   set (map fst (dict_of (parsed_interfaces input_content))) =
     set (map fst (parsed_interfaces input_content))"
  by (simp only: convert_file_eq dict_of_distinct dict_of_keys populate_new converter.simps simp_thms)

text \<open>
  The claim as stated fails when a name is declared twice: two declarations are parsed, one
  pair is emitted (for the later declaration).
\<close>

theorem duplicate_name_counterexample:
  "parsed_enums ''enum A { X } enum A { Y }'' = [(''A'', [''X'']), (''A'', [''Y''])] \<and>
   convert_file_output ''enum A { X } enum A { Y }'' =
     Inr (''import { z } from '' @ [SQ] @ ''zod'' @ [SQ] @ '';'' @ [NL, NL] @
          ''// Auto-generated Zod schemas'' @ [NL, NL] @
          ''export const ASchema = z.literal(\"Y\");'' @ [NL, NL] @
          ''export type A = z.infer<typeof ASchema>;'' @ [NL]) \<and>
   convert_file_output ''enum A { X } enum A { Y }'' \<noteq>
     Inr (one_pair_per_declaration ''enum A { X } enum A { Y }'')"
  by (simp add: file_simps rx_simps text_simps convert_simps)

end
